theory Spec2Isabelle
  imports Main
begin

section \<open>Data model of rs_string.h\<close>

text \<open>
  The header implements a byte string with a small inline buffer (SSO) and a
  reference-counted heap block that several strings may share (copy-on-write).

  Modelling decisions, all of them visible in the definitions below:
  \<^item> A byte is a \<^typ>\<open>char\<close>; its unsigned value is \<open>of_char\<close>.
  \<^item> \<open>size_t\<close> lengths, positions and capacities are natural numbers: they are
    sizes of buffers that exist in memory, and sums of them are taken not to wrap.
    Two places have the wrap-around of the 64-bit \<open>size_t\<close> written out. The
    reference counter is decremented without any check in the source
    (\<open>rs__rc_dec\<close>). And the size asked of \<open>rs_string_reserve\<close> is no size of
    anything in memory but a number of the caller's choosing, which the source adds
    to without any check (\<open>rs_string_reserve\<close>).
  \<^item> The pointer \<open>s->p\<close> points to the string's own inline buffer (\<open>Sso\<close>),
    or to the data area of a heap block (\<open>Heap a\<close>, with \<open>a\<close> the address of
    the block's header), or to the inline buffer of a struct that no longer exists
    (\<open>Stale\<close>). \<open>rs_string_is_heap\<close> compares \<open>s->p\<close> with \<open>s->sso\<close>.
    Copying a struct copies \<open>p\<close> as it is, so the copy of an inline string does
    not point at its own buffer (\<open>by_value\<close>). Memory behind a stale pointer
    is not part of the model: what a function reads or writes through it is left
    unspecified.
  \<^item> The heap maps addresses to blocks: the two header fields and the bytes that
    follow the header. \<open>malloc\<close> and \<open>realloc\<close> may fail: request number
    \<open>k\<close> succeeds iff \<open>may_alloc h k\<close>. Fresh memory is filled with the
    indeterminate byte \<open>junk h\<close>.
  \<^item> A function that takes \<open>rs_string* s\<close> and mutates it takes the struct and
    the heap and returns the return code, the updated struct and the updated heap.
  \<^item> Every caller in the sources passes \<open>rs_default_alloc()\<close> as allocator, so
    the allocator argument is the heap's own \<open>rs__sys_malloc\<close>,
    \<open>rs__sys_realloc\<close> and \<open>rs__sys_free\<close>.
  \<^item> The struct passed is always there: the tests \<open>if (!s) return\<close> at the head
    of \<open>rs_string_free\<close> and \<open>rs_string_trim_right\<close> have no branch here.
\<close>

definition RS_SSO_CAP :: nat where
  "RS_SSO_CAP = 22"

definition SIZE_MAX :: nat where
  "SIZE_MAX = 2 ^ 64 - 1"

definition NUL :: char where
  "NUL = CHR 0x00"

datatype ptr = Sso | Heap nat | Stale

record rs__hdr =
  hdr_cap :: nat
  hdr_rc :: nat
  hdr_data :: "char list"

record heap =
  blocks :: "nat \<Rightarrow> rs__hdr option"
  brk :: nat
  may_alloc :: "nat \<Rightarrow> bool"
  ticks :: nat
  junk :: char

record rs_string =
  rs_len :: nat
  rs_off :: nat
  rs_p :: ptr
  rs_cap :: nat
  rs_sso :: "char list"

datatype fault = NullDeref

subsection \<open>Reference counter\<close>

definition rs__rc_inc :: "nat \<Rightarrow> nat" where
  "rs__rc_inc r = (if r = SIZE_MAX then 0 else r + 1)"

definition rs__rc_dec :: "nat \<Rightarrow> nat" where
  "rs__rc_dec r = (if r = 0 then SIZE_MAX else r - 1)"

subsection \<open>Allocator\<close>

text \<open>
  \<open>rs__sys_malloc n h\<close> asks for a header followed by \<open>n\<close> bytes. On success
  the block sits at the fresh address \<open>brk h\<close>; its header fields are
  indeterminate until the caller sets them (0 here, every caller overwrites both).
  \<open>rs__sys_realloc\<close> moves the block to a fresh address, keeps the header and the
  first \<open>n\<close> bytes and leaves the old block alone when it fails.
\<close>

definition rs__sys_malloc :: "nat \<Rightarrow> heap \<Rightarrow> nat option \<times> heap" where
  "rs__sys_malloc n h =
     (if may_alloc h (ticks h)
      then (Some (brk h),
            h\<lparr>blocks := (blocks h)(brk h \<mapsto>
                   \<lparr>hdr_cap = 0, hdr_rc = 0, hdr_data = replicate n (junk h)\<rparr>),
              brk := Suc (brk h), ticks := Suc (ticks h)\<rparr>)
      else (None, h\<lparr>ticks := Suc (ticks h)\<rparr>))"

definition rs__sys_realloc :: "nat \<Rightarrow> nat \<Rightarrow> heap \<Rightarrow> nat option \<times> heap" where
  "rs__sys_realloc a n h =
     (if may_alloc h (ticks h)
      then (let b = the (blocks h a);
                d = take n (hdr_data b @ replicate n (junk h))
            in (Some (brk h),
                h\<lparr>blocks := ((blocks h)(a := None))(brk h \<mapsto> b\<lparr>hdr_data := d\<rparr>),
                  brk := Suc (brk h), ticks := Suc (ticks h)\<rparr>))
      else (None, h\<lparr>ticks := Suc (ticks h)\<rparr>))"

definition rs__sys_free :: "nat \<Rightarrow> heap \<Rightarrow> heap" where
  "rs__sys_free a h = h\<lparr>blocks := (blocks h)(a := None)\<rparr>"

subsection \<open>Buffers\<close>

text \<open>
  \<open>memcpy_at buf pos src\<close> is \<open>memcpy(buf + pos, src, length src)\<close> (and
  \<open>memmove\<close>, whose source is read before anything is written). The buffer keeps
  its size.
\<close>

definition memcpy_at :: "char list \<Rightarrow> nat \<Rightarrow> char list \<Rightarrow> char list" where
  "memcpy_at buf pos src =
     take (length buf) (take pos buf @ src @ drop (pos + length src) buf)"

definition c_str :: "char list \<Rightarrow> char list" where
  "c_str bytes = takeWhile (\<lambda>c. c \<noteq> NUL) bytes"

definition set_hdr :: "nat \<Rightarrow> (rs__hdr \<Rightarrow> rs__hdr) \<Rightarrow> heap \<Rightarrow> heap" where
  "set_hdr a f h = h\<lparr>blocks := (blocks h)(a \<mapsto> f (the (blocks h a)))\<rparr>"

subsection \<open>Helpers\<close>

definition rs_string_is_heap :: "rs_string \<Rightarrow> bool" where
  "rs_string_is_heap s = (rs_p s \<noteq> Sso)"

definition rs_string_len :: "rs_string \<Rightarrow> nat" where
  "rs_string_len s = rs_len s"

definition rs_string_cap :: "rs_string \<Rightarrow> nat" where
  "rs_string_cap s = (if rs_string_is_heap s then rs_cap s else RS_SSO_CAP)"

text \<open>The bytes at \<open>rs_string_is_heap(s) ? s->p : s->sso\<close>, and storing them back.\<close>

definition rs_buf :: "rs_string \<Rightarrow> heap \<Rightarrow> char list" where
  "rs_buf s h = (case rs_p s of Sso \<Rightarrow> rs_sso s
                 | Heap a \<Rightarrow> hdr_data (the (blocks h a))
                 | Stale \<Rightarrow> undefined)"

definition rs_set_buf :: "rs_string \<Rightarrow> heap \<Rightarrow> char list \<Rightarrow> rs_string \<times> heap" where
  "rs_set_buf s h b = (case rs_p s of Sso \<Rightarrow> (s\<lparr>rs_sso := b\<rparr>, h)
                       | Heap a \<Rightarrow> (s, set_hdr a (\<lambda>x. x\<lparr>hdr_data := b\<rparr>) h)
                       | Stale \<Rightarrow> undefined)"

text \<open>What a reader of \<open>rs_string_cstr\<close> sees: the bytes up to the terminator.\<close>

definition rs_string_cstr :: "rs_string \<Rightarrow> heap \<Rightarrow> char list" where
  "rs_string_cstr s h = c_str (rs_buf s h)"

text \<open>The logical content: the first \<open>len\<close> bytes.\<close>

definition content :: "rs_string \<Rightarrow> heap \<Rightarrow> char list" where
  "content s h = take (rs_len s) (rs_buf s h)"

subsection \<open>Init, construction, release\<close>

definition rs_string_init :: "rs_string \<Rightarrow> rs_string" where
  "rs_string_init s =
     s\<lparr>rs_len := 0, rs_off := 0, rs_sso := (rs_sso s)[0 := NUL], rs_p := Sso,
       rs_cap := RS_SSO_CAP\<rparr>"

text \<open>
  \<open>by_value s\<close> is what the receiver of a struct copy holds once the original is
  gone (a local returned by value): the fields as they were. A \<open>p\<close> that pointed
  at the original's own inline buffer still holds that address, which is not the
  address of the copy's buffer.
\<close>

definition by_value :: "rs_string \<Rightarrow> rs_string" where
  "by_value s = (case rs_p s of Sso \<Rightarrow> s\<lparr>rs_p := Stale\<rparr> | Heap a \<Rightarrow> s | Stale \<Rightarrow> s)"

text \<open>
  \<open>rs_string_from_val slot c h\<close>: \<open>slot\<close> is the uninitialised local \<open>s\<close>,
  \<open>c\<close> the argument (\<open>None\<close> for a null pointer, otherwise the bytes at
  \<open>c\<close>, read up to the first terminator). The result of \<open>a.m\<close> is not checked
  before \<open>h->cap = cap\<close>: a failed allocation is a null dereference. The local
  is initialised in place and then returned by value.
  \<open>rs_string_from_cstr s slot c h\<close> assigns that value to \<open>*s\<close>, whatever
  \<open>*s\<close> held before; \<open>slot\<close> is again the local of \<open>rs_string_from_val\<close>.
\<close>

definition rs_string_from_val ::
  "rs_string \<Rightarrow> char list option \<Rightarrow> heap \<Rightarrow> fault + (rs_string \<times> heap)" where
  "rs_string_from_val slot c h =
     (let s = rs_string_init slot in
      case c of
        None \<Rightarrow> Inr (by_value s, h)
      | Some bytes \<Rightarrow>
          (let v = c_str bytes; n = length v in
           if n = 0 then Inr (by_value s, h)
           else if n \<le> RS_SSO_CAP
           then Inr (by_value (s\<lparr>rs_sso := memcpy_at (rs_sso s) 0 (v @ [NUL]), rs_len := n\<rparr>), h)
           else (case rs__sys_malloc (n + 1) h of
                   (None, h1) \<Rightarrow> Inl NullDeref
                 | (Some a, h1) \<Rightarrow>
                     (let h2 = set_hdr a (\<lambda>x. x\<lparr>hdr_cap := n, hdr_rc := 1\<rparr>) h1;
                          h3 = set_hdr a (\<lambda>x. x\<lparr>hdr_data :=
                                 memcpy_at (hdr_data x) 0 (v @ [NUL])\<rparr>) h2
                      in Inr (by_value (s\<lparr>rs_p := Heap a, rs_cap := n, rs_len := n\<rparr>), h3)))))"

definition rs_string_from_cstr ::
  "rs_string \<Rightarrow> rs_string \<Rightarrow> char list option \<Rightarrow> heap \<Rightarrow>
     fault + (int \<times> rs_string \<times> heap)" where
  "rs_string_from_cstr s slot c h =
     (case rs_string_from_val slot c h of
        Inl e \<Rightarrow> Inl e
      | Inr (s1, h1) \<Rightarrow> Inr (0, by_value s1, h1))"

definition rs__free_heap :: "rs_string \<Rightarrow> heap \<Rightarrow> heap" where
  "rs__free_heap s h =
     (case rs_p s of
        Sso \<Rightarrow> h
      | Heap a \<Rightarrow>
          (let r = rs__rc_dec (hdr_rc (the (blocks h a)));
               h1 = set_hdr a (\<lambda>x. x\<lparr>hdr_rc := r\<rparr>) h
           in if r = 0 then rs__sys_free a h1 else h1)
      | Stale \<Rightarrow> undefined)"

definition rs_string_free :: "rs_string \<Rightarrow> heap \<Rightarrow> rs_string \<times> heap" where
  "rs_string_free s h =
     (let h1 = (if rs_string_is_heap s then rs__free_heap s h else h)
      in (rs_string_init s, h1))"

subsection \<open>Copy-on-write helpers\<close>

definition rs__retain :: "rs_string \<Rightarrow> heap \<Rightarrow> heap" where
  "rs__retain s h =
     (case rs_p s of
        Sso \<Rightarrow> h
      | Heap a \<Rightarrow> set_hdr a (\<lambda>x. x\<lparr>hdr_rc := rs__rc_inc (hdr_rc x)\<rparr>) h
      | Stale \<Rightarrow> undefined)"

text \<open>
  \<open>rs_string_share\<close> takes two pointers and compares them, so it works on a
  store of string objects: \<open>objs w ! i\<close> is the struct at address \<open>i\<close>.
\<close>

record world =
  objs :: "rs_string list"
  mem :: heap

definition rs_string_share :: "nat \<Rightarrow> nat \<Rightarrow> world \<Rightarrow> world" where
  "rs_string_share dst src w =
     (if dst = src then w
      else
        (let (d1, h1) = rs_string_free (objs w ! dst) (mem w);
             s = objs w ! src;
             (d2, h2) =
               (if rs_string_is_heap s
                then (s, rs__retain s h1)
                else (d1\<lparr>rs_len := rs_len s, rs_off := 0, rs_cap := RS_SSO_CAP,
                         rs_sso := memcpy_at (rs_sso d1) 0 (take (rs_len s + 1) (rs_sso s)),
                         rs_p := Sso\<rparr>, h1));
             h3 = (if rs_string_is_heap d2 then rs__retain d2 h2 else h2)
         in w\<lparr>objs := (objs w)[dst := d2], mem := h3\<rparr>))"

text \<open>The number of string objects whose \<open>p\<close> points into block \<open>a\<close>.\<close>

definition holders :: "world \<Rightarrow> nat \<Rightarrow> nat" where
  "holders w a = length (filter (\<lambda>s. rs_p s = Heap a) (objs w))"

definition rs__ensure_unique :: "rs_string \<Rightarrow> heap \<Rightarrow> int \<times> rs_string \<times> heap" where
  "rs__ensure_unique s h =
     (case rs_p s of
        Sso \<Rightarrow> (0, s, h)
      | Heap a \<Rightarrow>
          (let hd = the (blocks h a) in
           if hdr_rc hd = 1 then (0, s, h)
           else
             (let cap = hdr_cap hd in
              case rs__sys_malloc (cap + 1) h of
                (None, h1) \<Rightarrow> (- 1, s, h1)
              | (Some na, h1) \<Rightarrow>
                  (let h2 = set_hdr na (\<lambda>x. x\<lparr>hdr_cap := cap, hdr_rc := 1\<rparr>) h1;
                       h3 = set_hdr na (\<lambda>x. x\<lparr>hdr_data :=
                              memcpy_at (hdr_data x) 0 (take (rs_len s + 1) (rs_buf s h2))\<rparr>) h2;
                       h4 = set_hdr a (\<lambda>x. x\<lparr>hdr_rc := rs__rc_dec (hdr_rc x)\<rparr>) h3
                   in (0, s\<lparr>rs_p := Heap na, rs_cap := cap\<rparr>, h4))))
      | Stale \<Rightarrow> undefined)"

subsection \<open>Reserve\<close>

text \<open>
  \<open>rs_string_reserve_ex\<close> as \<open>rs_string_assign\<close>, \<open>rs_string_append\<close>,
  \<open>rs_string_insert\<close>, \<open>rs_string_replace_first\<close> and \<open>rs_string_vprintf\<close>
  call it: their \<open>need\<close> is made of the sizes of bytes that are in memory, and the
  sums are exact.
\<close>

definition rs_string_reserve_ex :: "rs_string \<Rightarrow> nat \<Rightarrow> heap \<Rightarrow> int \<times> rs_string \<times> heap" where
  "rs_string_reserve_ex s need h =
     (let cap = rs_string_cap s in
      if need \<le> cap then (0, s, h)
      else
        (case rs__ensure_unique s h of
           (r, s1, h1) \<Rightarrow>
             if r \<noteq> 0 then (- 1, s1, h1)
             else
               (let ncap0 = cap + cap div 2 + 1;
                    ncap = (if ncap0 < need then need else ncap0)
                in case rs_p s1 of
                     Heap a \<Rightarrow>
                       (case rs__sys_realloc a (ncap + 1) h1 of
                          (None, h2) \<Rightarrow> (- 1, s1, h2)
                        | (Some na, h2) \<Rightarrow>
                            (0, s1\<lparr>rs_p := Heap na, rs_cap := ncap\<rparr>,
                             set_hdr na (\<lambda>x. x\<lparr>hdr_cap := ncap\<rparr>) h2))
                   | Sso \<Rightarrow>
                       (case rs__sys_malloc (ncap + 1) h1 of
                          (None, h2) \<Rightarrow> (- 1, s1, h2)
                        | (Some na, h2) \<Rightarrow>
                            (let h3 = set_hdr na (\<lambda>x. x\<lparr>hdr_cap := ncap, hdr_rc := 1\<rparr>) h2;
                                 h4 = set_hdr na (\<lambda>x. x\<lparr>hdr_data :=
                                        memcpy_at (hdr_data x) 0
                                          (take (rs_len s1 + 1) (rs_sso s1))\<rparr>) h3
                             in (0, s1\<lparr>rs_p := Heap na, rs_cap := ncap\<rparr>, h4)))
                   | Stale \<Rightarrow> undefined)))"

text \<open>
  \<open>rs_string_reserve\<close> hands a \<open>need\<close> of the caller's choosing to the same
  code. For this entry point the code of \<open>rs_string_reserve_ex\<close> is written out
  with the arithmetic of \<open>size_t\<close> (64 bits): the sum \<open>cap + cap / 2 + 1\<close> and
  the size of the request, \<open>sizeof(rs__hdr) + ncap + 1\<close>, are taken modulo
  \<open>2 ^ 64\<close>, and nothing in the source checks either. \<open>rs__hdr_size\<close> is
  \<open>sizeof(rs__hdr)\<close>, two fields of 8 bytes. The block obtained has the bytes of the
  request that follow the header, none if the request is not larger than the header.
\<close>

definition rs__hdr_size :: nat where
  "rs__hdr_size = 16"

definition size_t :: "nat \<Rightarrow> nat" where
  "size_t n = n mod (SIZE_MAX + 1)"

definition rs_string_reserve :: "rs_string \<Rightarrow> nat \<Rightarrow> heap \<Rightarrow> int \<times> rs_string \<times> heap" where
  "rs_string_reserve s need h =
     (let cap = rs_string_cap s in
      if need \<le> cap then (0, s, h)
      else
        (case rs__ensure_unique s h of
           (r, s1, h1) \<Rightarrow>
             if r \<noteq> 0 then (- 1, s1, h1)
             else
               (let ncap0 = size_t (cap + cap div 2 + 1);
                    ncap = (if ncap0 < need then need else ncap0);
                    bytes = size_t (rs__hdr_size + ncap + 1) - rs__hdr_size
                in case rs_p s1 of
                     Heap a \<Rightarrow>
                       (case rs__sys_realloc a bytes h1 of
                          (None, h2) \<Rightarrow> (- 1, s1, h2)
                        | (Some na, h2) \<Rightarrow>
                            (0, s1\<lparr>rs_p := Heap na, rs_cap := ncap\<rparr>,
                             set_hdr na (\<lambda>x. x\<lparr>hdr_cap := ncap\<rparr>) h2))
                   | Sso \<Rightarrow>
                       (case rs__sys_malloc bytes h1 of
                          (None, h2) \<Rightarrow> (- 1, s1, h2)
                        | (Some na, h2) \<Rightarrow>
                            (let h3 = set_hdr na (\<lambda>x. x\<lparr>hdr_cap := ncap, hdr_rc := 1\<rparr>) h2;
                                 h4 = set_hdr na (\<lambda>x. x\<lparr>hdr_data :=
                                        memcpy_at (hdr_data x) 0
                                          (take (rs_len s1 + 1) (rs_sso s1))\<rparr>) h3
                             in (0, s1\<lparr>rs_p := Heap na, rs_cap := ncap\<rparr>, h4)))
                   | Stale \<Rightarrow> undefined)))"

subsection \<open>Assign, append, insert, erase\<close>

text \<open>
  An \<open>rs_sv\<close> argument is the list of the bytes it views; it is taken not to
  point into the buffer of the string being changed. The sums \<open>pos + n\<close> of
  \<open>rs_string_erase\<close> and \<open>i + what.len\<close> of \<open>rs_string_find\<close> are exact: the
  functions are modelled for counts and starting points with which these sums stay
  within \<open>SIZE_MAX\<close>.
\<close>

definition rs_string_assign :: "rs_string \<Rightarrow> char list \<Rightarrow> heap \<Rightarrow> int \<times> rs_string \<times> heap" where
  "rs_string_assign s v h =
     (case rs_string_reserve_ex s (length v) h of
        (r1, s1, h1) \<Rightarrow>
          if r1 \<noteq> 0 then (- 1, s1, h1)
          else
            (case rs__ensure_unique s1 h1 of
               (r2, s2, h2) \<Rightarrow>
                 if r2 \<noteq> 0 then (- 1, s2, h2)
                 else
                   (let b = (memcpy_at (rs_buf s2 h2) 0 v)[length v := NUL];
                        (s3, h3) = rs_set_buf s2 h2 b
                    in (0, s3\<lparr>rs_len := length v\<rparr>, h3))))"

definition rs_string_clear :: "rs_string \<Rightarrow> heap \<Rightarrow> int \<times> rs_string \<times> heap" where
  "rs_string_clear s h = rs_string_assign s [] h"

definition rs_string_append :: "rs_string \<Rightarrow> char list \<Rightarrow> heap \<Rightarrow> int \<times> rs_string \<times> heap" where
  "rs_string_append s v h =
     (let need = rs_len s + length v in
      case rs_string_reserve_ex s need h of
        (r1, s1, h1) \<Rightarrow>
          if r1 \<noteq> 0 then (- 1, s1, h1)
          else
            (case rs__ensure_unique s1 h1 of
               (r2, s2, h2) \<Rightarrow>
                 if r2 \<noteq> 0 then (- 1, s2, h2)
                 else
                   (let n = rs_len s2 + length v;
                        b = (memcpy_at (rs_buf s2 h2) (rs_len s2) v)[n := NUL];
                        (s3, h3) = rs_set_buf s2 h2 b
                    in (0, s3\<lparr>rs_len := n\<rparr>, h3))))"

definition rs_sv_from_cstr :: "char list option \<Rightarrow> char list" where
  "rs_sv_from_cstr c = (case c of None \<Rightarrow> [] | Some bytes \<Rightarrow> c_str bytes)"

definition rs_string_push_cstr ::
  "rs_string \<Rightarrow> char list option \<Rightarrow> heap \<Rightarrow> int \<times> rs_string \<times> heap" where
  "rs_string_push_cstr s c h = rs_string_append s (rs_sv_from_cstr c) h"

definition rs_string_push_char :: "rs_string \<Rightarrow> char \<Rightarrow> heap \<Rightarrow> int \<times> rs_string \<times> heap" where
  "rs_string_push_char s ch h = rs_string_append s [ch] h"

definition rs_string_insert ::
  "rs_string \<Rightarrow> nat \<Rightarrow> char list \<Rightarrow> heap \<Rightarrow> int \<times> rs_string \<times> heap" where
  "rs_string_insert s pos0 v h =
     (let pos = (if pos0 > rs_len s then rs_len s else pos0) in
      case rs_string_reserve_ex s (rs_len s + length v) h of
        (r1, s1, h1) \<Rightarrow>
          if r1 \<noteq> 0 then (- 1, s1, h1)
          else
            (case rs__ensure_unique s1 h1 of
               (r2, s2, h2) \<Rightarrow>
                 if r2 \<noteq> 0 then (- 1, s2, h2)
                 else
                   (let b0 = rs_buf s2 h2;
                        b1 = memcpy_at b0 (pos + length v) (take (rs_len s2 - pos) (drop pos b0));
                        b2 = memcpy_at b1 pos v;
                        n = rs_len s2 + length v;
                        (s3, h3) = rs_set_buf s2 h2 (b2[n := NUL])
                    in (0, s3\<lparr>rs_len := n\<rparr>, h3))))"

definition rs_string_erase ::
  "rs_string \<Rightarrow> nat \<Rightarrow> nat \<Rightarrow> heap \<Rightarrow> int \<times> rs_string \<times> heap" where
  "rs_string_erase s pos n0 h =
     (if pos > rs_len s then (0, s, h)
      else
        (let n = (if pos + n0 > rs_len s then rs_len s - pos else n0) in
         case rs__ensure_unique s h of
           (r, s1, h1) \<Rightarrow>
             if r \<noteq> 0 then (- 1, s1, h1)
             else
               (let b0 = rs_buf s1 h1;
                    b1 = memcpy_at b0 pos
                           (take (rs_len s1 - (pos + n) + 1) (drop (pos + n) b0));
                    (s2, h2) = rs_set_buf s1 h1 b1
                in (0, s2\<lparr>rs_len := rs_len s1 - n\<rparr>, h2))))"

subsection \<open>Find\<close>

text \<open>
  The scan \<open>for (i = from; i + n <= len; ++i) if (memcmp(p + i, what, n) == 0)\<close>,
  which \<open>rs_string_find\<close> and \<open>rs_sv_split\<close> both contain. The sentinel
  \<open>(size_t)-1\<close> is \<open>None\<close>.
\<close>

function memcmp_scan :: "char list \<Rightarrow> nat \<Rightarrow> char list \<Rightarrow> nat \<Rightarrow> nat option" where
  "memcmp_scan p n what i =
     (if i + length what \<le> n
      then (if take (length what) (drop i p) = what then Some i
            else memcmp_scan p n what (i + 1))
      else None)"
  by pat_completeness auto
termination
proof (relation "measure (\<lambda>(p, n, what, i). n - i)")
  fix p :: "char list" and n :: nat and what :: "char list" and i :: nat
  assume le: "i + length what \<le> n" and ne: "take (length what) (drop i p) \<noteq> what"
  from ne have "what \<noteq> []" by auto
  with le have "i < n" by (cases what) auto
  then show "((p, n, what, i + 1), (p, n, what, i)) \<in> measure (\<lambda>(p, n, what, i). n - i)"
    by simp
qed simp

declare memcmp_scan.simps [simp del]

lemma memcmp_scan_Some:
  "memcmp_scan p n what i = Some pos \<Longrightarrow>
     i \<le> pos \<and> pos + length what \<le> n \<and> take (length what) (drop pos p) = what"
proof (induction p n what i rule: memcmp_scan.induct)
  case (1 p n what i)
  note unf = memcmp_scan.simps [of p n what i]
  show ?case
  proof (cases "i + length what \<le> n")
    case False
    with "1.prems" unf show ?thesis by simp
  next
    case le: True
    show ?thesis
    proof (cases "take (length what) (drop i p) = what")
      case True
      with le "1.prems" unf show ?thesis by simp
    next
      case False
      with le "1.prems" unf have "memcmp_scan p n what (i + 1) = Some pos" by simp
      with "1.IH" [OF le False] show ?thesis by simp
    qed
  qed
qed

definition rs_string_find :: "rs_string \<Rightarrow> char list \<Rightarrow> nat \<Rightarrow> heap \<Rightarrow> nat option" where
  "rs_string_find s what from h =
     (let p = rs_buf s h in
      if length what = 0 then (if from \<le> rs_len s then Some from else None)
      else memcmp_scan p (rs_len s) what from)"

subsection \<open>Trim\<close>

function trim_left_scan :: "char list \<Rightarrow> nat \<Rightarrow> nat \<Rightarrow> nat" where
  "trim_left_scan p n i =
     (if i < n \<and> of_char (p ! i) \<le> (0x20 :: nat) then trim_left_scan p n (i + 1) else i)"
  by pat_completeness auto
termination
  by (relation "measure (\<lambda>(p, n, i). n - i)") auto

declare trim_left_scan.simps [simp del]

fun trim_right_scan :: "char list \<Rightarrow> nat \<Rightarrow> nat" where
  "trim_right_scan p 0 = 0"
| "trim_right_scan p (Suc e) =
     (if of_char (p ! e) \<le> (0x20 :: nat) then trim_right_scan p e else Suc e)"

definition rs_string_trim_left :: "rs_string \<Rightarrow> heap \<Rightarrow> int \<times> rs_string \<times> heap" where
  "rs_string_trim_left s h =
     (let p = rs_buf s h;
          i = trim_left_scan p (rs_len s) 0
      in if i = 0 then (0, s, h) else rs_string_erase s 0 i h)"

definition rs_string_trim_right :: "rs_string \<Rightarrow> heap \<Rightarrow> int \<times> rs_string \<times> heap" where
  "rs_string_trim_right s h =
     (if rs_len s = 0 then (0, s, h)
      else
        (let start = rs_buf s h;
             size = trim_right_scan start (rs_len s)
         in if size = rs_len s then (0, s, h)
            else rs_string_erase s size (rs_len s - size) h))"

definition rs_string_trim :: "rs_string \<Rightarrow> heap \<Rightarrow> int \<times> rs_string \<times> heap" where
  "rs_string_trim s h =
     (case rs_string_trim_right s h of
        (r, s1, h1) \<Rightarrow> rs_string_trim_left s1 h1)"

subsection \<open>Replace\<close>

definition rs_string_replace_first ::
  "rs_string \<Rightarrow> char list \<Rightarrow> char list \<Rightarrow> heap \<Rightarrow> int \<times> rs_string \<times> heap" where
  "rs_string_replace_first s from to h =
     (case rs_string_find s from 0 h of
        None \<Rightarrow> (0, s, h)
      | Some pos \<Rightarrow>
          if length from \<ge> length to
          then (case rs_string_erase s pos (length from) h of
                  (r1, s1, h1) \<Rightarrow> rs_string_insert s1 pos to h1)
          else (case rs_string_reserve_ex s (rs_len s + (length to - length from)) h of
                  (r0, s0, h0) \<Rightarrow>
                    if r0 \<noteq> 0 then (- 1, s0, h0)
                    else (case rs_string_erase s0 pos (length from) h0 of
                            (r1, s1, h1) \<Rightarrow> rs_string_insert s1 pos to h1)))"

text \<open>
  The \<open>while (1)\<close> loop of \<open>rs_string_replace_all\<close>. The results of
  \<open>rs_string_erase\<close> and \<open>rs_string_insert\<close> are dropped by the source, so
  nothing in the loop itself bounds the number of rounds: the loop is a partial
  function, and \<open>None\<close> stands for a run that never returns.
\<close>

partial_function (option) replace_all_loop ::
  "rs_string \<Rightarrow> char list \<Rightarrow> char list \<Rightarrow> nat \<Rightarrow> int \<Rightarrow> heap \<Rightarrow> (int \<times> rs_string \<times> heap) option" where
  "replace_all_loop s from to i count h =
     (case rs_string_find s from i h of
        None \<Rightarrow> Some (count, s, h)
      | Some pos \<Rightarrow>
          (case rs_string_erase s pos (length from) h of
             (r1, s1, h1) \<Rightarrow>
               (case rs_string_insert s1 pos to h1 of
                  (r2, s2, h2) \<Rightarrow>
                    replace_all_loop s2 from to (pos + length to) (count + 1) h2)))"

definition rs_string_replace_all ::
  "rs_string \<Rightarrow> char list \<Rightarrow> char list \<Rightarrow> heap \<Rightarrow> (int \<times> rs_string \<times> heap) option" where
  "rs_string_replace_all s from to h =
     (if length from = 0 then Some (0, s, h)
      else replace_all_loop s from to 0 0 h)"

subsection \<open>Formatted write\<close>

text \<open>
  \<open>rs_string_vprintf s out h\<close>: \<open>out\<close> is what \<open>vsnprintf\<close> produces for the
  format and its arguments, \<open>None\<close> when it reports an error (a negative
  result). Both passes format the same arguments, so they produce the same bytes.
\<close>

definition rs_string_vprintf ::
  "rs_string \<Rightarrow> char list option \<Rightarrow> heap \<Rightarrow> int \<times> rs_string \<times> heap" where
  "rs_string_vprintf s out h =
     (case out of
        None \<Rightarrow> (- 1, s, h)
      | Some bytes \<Rightarrow>
          (let need = length bytes in
           case rs_string_reserve_ex s need h of
             (r1, s1, h1) \<Rightarrow>
               if r1 \<noteq> 0 then (- 1, s1, h1)
               else
                 (case rs__ensure_unique s1 h1 of
                    (r2, s2, h2) \<Rightarrow>
                      if r2 \<noteq> 0 then (- 1, s2, h2)
                      else
                        (let b = memcpy_at (rs_buf s2 h2) 0 (bytes @ [NUL]);
                             (s3, h3) = rs_set_buf s2 h2 b
                         in (int need, s3\<lparr>rs_len := need\<rparr>, h3)))))"

definition rs_string_printf ::
  "rs_string \<Rightarrow> char list option \<Rightarrow> heap \<Rightarrow> int \<times> rs_string \<times> heap" where
  "rs_string_printf s out h = rs_string_vprintf s out h"

subsection \<open>Splitting a view\<close>

text \<open>
  The callback receives the token and the context pointer; here it maps the
  context to the context it leaves behind. The loop is entered only with a
  non-empty separator, and the guard \<open>sep \<noteq> []\<close> records that.
\<close>

function split_loop ::
  "char list \<Rightarrow> char list \<Rightarrow> bool \<Rightarrow> (char list \<Rightarrow> 'c \<Rightarrow> 'c) \<Rightarrow> nat \<Rightarrow> 'c \<Rightarrow> 'c" where
  "split_loop s sep keep_empty cb i ctx =
     (if sep \<noteq> [] \<and> i \<le> length s
      then
        (case memcmp_scan s (length s) sep i of
           None \<Rightarrow>
             (let tok = drop i s
              in if length tok > 0 \<or> keep_empty then cb tok ctx else ctx)
         | Some pos \<Rightarrow>
             (let tok = take (pos - i) (drop i s);
                  ctx1 = (if length tok > 0 \<or> keep_empty then cb tok ctx else ctx);
                  i1 = pos + length sep
              in if i1 = length s \<and> keep_empty then cb [] ctx1
                 else split_loop s sep keep_empty cb i1 ctx1))
      else ctx)"
  by pat_completeness auto
termination
proof (relation "measure (\<lambda>(s, sep, keep_empty, cb, i, ctx). length s + 1 - i)")
  fix s sep :: "char list" and keep_empty :: bool and cb :: "char list \<Rightarrow> 'c \<Rightarrow> 'c"
    and i :: nat and ctx :: 'c and pos :: nat and tok :: "char list" and ctx1 :: 'c and i1 :: nat
  assume g: "sep \<noteq> [] \<and> i \<le> length s"
    and f: "memcmp_scan s (length s) sep i = Some pos"
    and i1: "i1 = pos + length sep"
  from memcmp_scan_Some [OF f] g have "i < i1" "i \<le> length s"
    unfolding i1 by (cases sep; simp)+
  then show "((s, sep, keep_empty, cb, i1, ctx1), (s, sep, keep_empty, cb, i, ctx))
      \<in> measure (\<lambda>(s, sep, keep_empty, cb, i, ctx). length s + 1 - i)"
    by simp
qed simp

declare split_loop.simps [simp del]

text \<open>
  \<open>rs_sv_split s sep keep_empty cb ctx\<close>: \<open>cb\<close> is \<open>None\<close> for a null
  callback.
\<close>

definition rs_sv_split ::
  "char list \<Rightarrow> char list \<Rightarrow> bool \<Rightarrow> (char list \<Rightarrow> 'c \<Rightarrow> 'c) option \<Rightarrow> 'c \<Rightarrow> 'c" where
  "rs_sv_split s sep keep_empty cb ctx =
     (case cb of
        None \<Rightarrow> ctx
      | Some f \<Rightarrow>
          if length sep = 0
          then (if length s > 0 \<or> keep_empty then f s ctx else ctx)
          else split_loop s sep keep_empty f 0 ctx)"

text \<open>Two callbacks: \<open>cb_count\<close> of the source, and one that records the tokens.\<close>

definition cb_count :: "char list \<Rightarrow> int \<Rightarrow> int" where
  "cb_count t n = n + 1"

definition cb_collect :: "char list \<Rightarrow> char list list \<Rightarrow> char list list" where
  "cb_collect t acc = acc @ [t]"

declare replace_all_loop.simps [code]

section \<open>Well-formed strings\<close>

text \<open>
  \<open>rs_valid s h\<close>: the inline buffer has its \<open>RS_SSO_CAP + 1\<close> bytes; the
  length fits the capacity; the byte at index \<open>len\<close> is the terminator; a heap
  string points to an allocated block whose header capacity is \<open>s->cap\<close> and
  which has \<open>cap + 1\<close> bytes. \<open>unique s h\<close>: \<open>rs__ensure_unique\<close> has
  nothing to do. \<open>never_fails h\<close>: no allocation request fails from now on.
\<close>

definition rs_valid :: "rs_string \<Rightarrow> heap \<Rightarrow> bool" where
  "rs_valid s h \<longleftrightarrow>
     length (rs_sso s) = RS_SSO_CAP + 1 \<and>
     (case rs_p s of
        Sso \<Rightarrow> rs_len s \<le> RS_SSO_CAP \<and> rs_sso s ! rs_len s = NUL
      | Heap a \<Rightarrow>
          (case blocks h a of
             None \<Rightarrow> False
           | Some b \<Rightarrow> a < brk h \<and> hdr_cap b = rs_cap s \<and>
                       length (hdr_data b) = rs_cap s + 1 \<and>
                       rs_len s \<le> rs_cap s \<and> hdr_data b ! rs_len s = NUL)
      | Stale \<Rightarrow> False)"

definition unique :: "rs_string \<Rightarrow> heap \<Rightarrow> bool" where
  "unique s h = (case rs_p s of Sso \<Rightarrow> True | Heap a \<Rightarrow> hdr_rc (the (blocks h a)) = 1
                 | Stale \<Rightarrow> False)"

definition never_fails :: "heap \<Rightarrow> bool" where
  "never_fails h \<longleftrightarrow> (\<forall>k\<ge>ticks h. may_alloc h k)"

section \<open>Reference definitions\<close>

text \<open>
  What the specification says \<open>replace_all\<close> computes, written on lists without
  any buffer: scanning left to right, every occurrence of \<open>from\<close> that starts in
  the unscanned input is replaced by \<open>to\<close>, the scan resumes after the occurrence
  in the input, and the text put out is never looked at again.
  \<open>replace_count_spec\<close> counts the occurrences replaced.
\<close>

function replace_all_spec :: "char list \<Rightarrow> char list \<Rightarrow> char list \<Rightarrow> char list" where
  "replace_all_spec from to xs =
     (if from = [] then xs
      else if take (length from) xs = from
           then to @ replace_all_spec from to (drop (length from) xs)
      else (case xs of [] \<Rightarrow> [] | x # xs' \<Rightarrow> x # replace_all_spec from to xs'))"
  by pat_completeness auto
termination
proof (relation "measure (\<lambda>(from, to, xs). length xs)")
  fix frm rep xs :: "char list"
  assume ne: "frm \<noteq> []" and tk: "take (length frm) xs = frm"
  from ne tk have "xs \<noteq> []" by auto
  with ne show "((frm, rep, drop (length frm) xs), (frm, rep, xs))
      \<in> measure (\<lambda>(from, to, xs). length xs)"
    by simp
qed auto

function replace_count_spec :: "char list \<Rightarrow> char list \<Rightarrow> nat" where
  "replace_count_spec from xs =
     (if from = [] then 0
      else if take (length from) xs = from
           then 1 + replace_count_spec from (drop (length from) xs)
      else (case xs of [] \<Rightarrow> 0 | x # xs' \<Rightarrow> replace_count_spec from xs'))"
  by pat_completeness auto
termination
proof (relation "measure (\<lambda>(from, xs). length xs)")
  fix frm xs :: "char list"
  assume ne: "frm \<noteq> []" and tk: "take (length frm) xs = frm"
  from ne tk have "xs \<noteq> []" by auto
  with ne show "((frm, drop (length frm) xs), (frm, xs)) \<in> measure (\<lambda>(from, xs). length xs)"
    by simp
qed auto

declare replace_all_spec.simps [simp del] replace_count_spec.simps [simp del]


text \<open>
  What the specification says \<open>split\<close> delivers. \<open>tokens_spec sep acc xs\<close> reads
  \<open>xs\<close> from the left with the current token in \<open>acc\<close>: where the separator
  starts the rest of the input, the token ends and the scan resumes behind the
  separator, so the occurrences cut out do not overlap; at the end of the input the
  last token ends (it is empty right after a separator). \<open>split_spec\<close> adds the two
  switches: an empty separator yields the whole input once if it is non-empty or
  \<open>keep_empty\<close> is set, and without \<open>keep_empty\<close> the empty tokens are dropped.
  \<open>join\<close> puts the separator back between the tokens.
\<close>

function tokens_spec :: "char list \<Rightarrow> char list \<Rightarrow> char list \<Rightarrow> char list list" where
  "tokens_spec sep acc xs =
     (if sep \<noteq> [] \<and> take (length sep) xs = sep
      then acc # tokens_spec sep [] (drop (length sep) xs)
      else (case xs of [] \<Rightarrow> [acc] | x # xs' \<Rightarrow> tokens_spec sep (acc @ [x]) xs'))"
  by pat_completeness auto
termination
proof (relation "measure (\<lambda>(sep, acc, xs). length xs)")
  fix sep acc xs :: "char list"
  assume a: "sep \<noteq> [] \<and> take (length sep) xs = sep"
  then have "xs \<noteq> []" by auto
  with a show "((sep, [], drop (length sep) xs), (sep, acc, xs))
      \<in> measure (\<lambda>(sep, acc, xs). length xs)"
    by simp
qed auto

declare tokens_spec.simps [simp del]

definition split_spec :: "char list \<Rightarrow> bool \<Rightarrow> char list \<Rightarrow> char list list" where
  "split_spec sep keep_empty s =
     (if sep = [] then (if s \<noteq> [] \<or> keep_empty then [s] else [])
      else if keep_empty then tokens_spec sep [] s
      else filter (\<lambda>t. t \<noteq> []) (tokens_spec sep [] s))"

fun join :: "char list \<Rightarrow> char list list \<Rightarrow> char list" where
  "join sep [] = []"
| "join sep [t] = t"
| "join sep (t # u # ts) = t @ sep @ join sep (u # ts)"

definition toks :: "bool \<Rightarrow> char list list \<Rightarrow> char list list" where
  "toks keep_empty ts = (if keep_empty then ts else filter (\<lambda>t. t \<noteq> []) ts)"

text \<open>The bytes that the trim functions strip: unsigned value at most \<open>0x20\<close>.\<close>

definition is_space_byte :: "char \<Rightarrow> bool" where
  "is_space_byte c \<longleftrightarrow> of_char c \<le> (0x20 :: nat)"

subsection \<open>Fixtures for concrete runs\<close>

text \<open>
  An empty heap whose allocator never fails, one whose allocator always fails, and an
  uninitialised stack slot full of garbage.
\<close>

definition heap_ok :: heap where
  "heap_ok = \<lparr>blocks = (\<lambda>a. None), brk = 0, may_alloc = (\<lambda>k. True), ticks = 0,
               junk = CHR ''?''\<rparr>"

definition heap_oom :: heap where
  "heap_oom = \<lparr>blocks = (\<lambda>a. None), brk = 0, may_alloc = (\<lambda>k. False), ticks = 0,
                junk = CHR ''?''\<rparr>"

definition garbage_slot :: rs_string where
  "garbage_slot = \<lparr>rs_len = 7, rs_off = 9, rs_p = Heap 99, rs_cap = 3,
                    rs_sso = replicate 23 (CHR ''#'')\<rparr>"


text \<open>
  An inline string and a heap string with given content, and a heap that holds the
  block of the latter at address 0 with a given reference count.
\<close>

definition inline_str :: "char list \<Rightarrow> rs_string" where
  "inline_str v = \<lparr>rs_len = length v, rs_off = 0, rs_p = Sso, rs_cap = RS_SSO_CAP,
                    rs_sso = v @ NUL # replicate (RS_SSO_CAP - length v) (CHR ''#'')\<rparr>"

definition heap_str :: "nat \<Rightarrow> char list \<Rightarrow> rs_string" where
  "heap_str a v = \<lparr>rs_len = length v, rs_off = 0, rs_p = Heap a, rs_cap = length v,
                    rs_sso = NUL # replicate RS_SSO_CAP (CHR ''#'')\<rparr>"

definition heap_one :: "(nat \<Rightarrow> bool) \<Rightarrow> nat \<Rightarrow> char list \<Rightarrow> heap" where
  "heap_one ok rc v =
     \<lparr>blocks = (\<lambda>a. None)(0 \<mapsto> \<lparr>hdr_cap = length v, hdr_rc = rc, hdr_data = v @ [NUL]\<rparr>),
      brk = 1, may_alloc = ok, ticks = 0, junk = CHR ''?''\<rparr>"

text \<open>
  Two string objects, an empty inline one at address 0 and a heap string at address 1
  that owns block 0; the reference count of a block, if it is allocated; a text of 30
  bytes; and the heap that holds this text in block 0 with count 3 (what one
  \<open>rs_string_share\<close> leaves behind), after \<open>t\<close> allocation requests, with an
  allocator that fails from now on.
\<close>

definition share_world :: world where
  "share_world =
     \<lparr>objs = [rs_string_init garbage_slot, heap_str 0 (replicate 30 (CHR ''x''))],
      mem = heap_one (\<lambda>k. True) 1 (replicate 30 (CHR ''x''))\<rparr>"

definition rc_of :: "heap \<Rightarrow> nat \<Rightarrow> nat option" where
  "rc_of h a = map_option hdr_rc (blocks h a)"

definition shared_text :: "char list" where
  "shared_text = ''aXb...........................''"

definition oom_heap :: "nat \<Rightarrow> heap" where
  "oom_heap t = (heap_one (\<lambda>k. False) 3 shared_text)\<lparr>ticks := t\<rparr>"

section \<open>The primitives on well-formed strings\<close>

lemma memcpy_at_length [simp]: "length (memcpy_at buf pos src) = length buf"
  by (simp add: memcpy_at_def)

lemma memcpy_at_in:
  "pos + length src \<le> length buf \<Longrightarrow>
     memcpy_at buf pos src = take pos buf @ src @ drop (pos + length src) buf"
  by (simp add: memcpy_at_def)

lemma valid_len_cap: "rs_valid s h \<Longrightarrow> rs_len s \<le> rs_string_cap s"
  by (auto simp: rs_valid_def rs_string_cap_def rs_string_is_heap_def split: ptr.splits option.splits)

lemma valid_buf_length: "rs_valid s h \<Longrightarrow> length (rs_buf s h) = rs_string_cap s + 1"
  by (auto simp: rs_valid_def rs_buf_def rs_string_cap_def rs_string_is_heap_def split: ptr.splits option.splits)

lemma valid_terminator: "rs_valid s h \<Longrightarrow> rs_buf s h ! rs_len s = NUL"
  by (auto simp: rs_valid_def rs_buf_def split: ptr.splits option.splits)

lemma take_Suc_content: "rs_valid s h \<Longrightarrow> take (rs_len s + 1) (rs_buf s h) = content s h @ [NUL]"
  using valid_buf_length [of s h] valid_len_cap [of s h] valid_terminator [of s h]
  by (simp add: content_def take_Suc_conv_app_nth)

lemma unique_noop: "unique s h \<Longrightarrow> rs__ensure_unique s h = (0, s, h)"
  by (auto simp: unique_def rs__ensure_unique_def split: ptr.splits)

lemma ensure_unique_spec:
  assumes "rs_valid s h" and "rs__ensure_unique s h = (r, s', h')"
  shows "rs_valid s' h' \<and> rs_len s' = rs_len s \<and> content s' h' = content s h \<and>
         rs_string_cap s' = rs_string_cap s \<and> (rs_string_is_heap s' = rs_string_is_heap s) \<and>
         (r = 0 \<or> r = - 1) \<and> (r = 0 \<longrightarrow> unique s' h') \<and> (r \<noteq> 0 \<longrightarrow> s' = s) \<and>
         (never_fails h \<longrightarrow> r = 0 \<and> never_fails h')"
  using assms
  by (auto simp: rs_valid_def unique_def rs__ensure_unique_def rs__sys_malloc_def Let_def set_hdr_def
      content_def rs_buf_def rs_string_cap_def rs_string_is_heap_def never_fails_def memcpy_at_in nth_append
      split: ptr.splits option.splits if_splits prod.splits)


lemma ticks_irrelevant [simp]:
  "rs_valid s (h\<lparr>ticks := t\<rparr>) = rs_valid s h"
  "content s (h\<lparr>ticks := t\<rparr>) = content s h"
  "unique s (h\<lparr>ticks := t\<rparr>) = unique s h"
  "rs_buf s (h\<lparr>ticks := t\<rparr>) = rs_buf s h"
  by (simp_all add: rs_valid_def content_def unique_def rs_buf_def split: ptr.splits option.splits)

lemma never_fails_tick: "never_fails h \<Longrightarrow> never_fails (h\<lparr>ticks := Suc (ticks h)\<rparr>)"
  by (simp add: never_fails_def)

lemma malloc_None:
  "rs__sys_malloc n h = (None, h') \<Longrightarrow> h' = h\<lparr>ticks := Suc (ticks h)\<rparr> \<and> \<not> never_fails h"
  by (auto simp: rs__sys_malloc_def never_fails_def split: if_splits)

lemma realloc_None:
  "rs__sys_realloc a n h = (None, h') \<Longrightarrow> h' = h\<lparr>ticks := Suc (ticks h)\<rparr> \<and> \<not> never_fails h"
  by (auto simp: rs__sys_realloc_def never_fails_def Let_def split: if_splits)

lemma grow_heap:
  assumes "rs_valid s h" and "rs_p s = Heap a" and "unique s h"
    and "rs__sys_realloc a (ncap + 1) h = (Some na, h2)" and "rs_cap s \<le> ncap"
    and "s' = s\<lparr>rs_p := Heap na, rs_cap := ncap\<rparr>"
    and "h' = set_hdr na (\<lambda>x. x\<lparr>hdr_cap := ncap\<rparr>) h2"
  shows "rs_valid s' h' \<and> content s' h' = content s h \<and> unique s' h' \<and>
         (never_fails h \<longrightarrow> never_fails h')"
  using assms
  by (auto simp: rs_valid_def unique_def rs__sys_realloc_def Let_def set_hdr_def content_def
      rs_buf_def never_fails_def nth_append split: option.splits if_splits)

lemma grow_sso:
  assumes "rs_valid s h" and "rs_p s = Sso"
    and "rs__sys_malloc (ncap + 1) h = (Some na, h2)" and "RS_SSO_CAP \<le> ncap"
    and "h3 = set_hdr na (\<lambda>x. x\<lparr>hdr_cap := ncap, hdr_rc := 1\<rparr>) h2"
    and "h' = set_hdr na (\<lambda>x. x\<lparr>hdr_data :=
               memcpy_at (hdr_data x) 0 (take (rs_len s + 1) (rs_sso s))\<rparr>) h3"
    and "s' = s\<lparr>rs_p := Heap na, rs_cap := ncap\<rparr>"
  shows "rs_valid s' h' \<and> content s' h' = content s h \<and> unique s' h' \<and>
         (never_fails h \<longrightarrow> never_fails h')"
  using assms
  by (auto simp: rs_valid_def unique_def rs__sys_malloc_def Let_def set_hdr_def content_def
      rs_buf_def never_fails_def nth_append memcpy_at_in split: option.splits if_splits)


lemma reserve_ex_spec:
  assumes v: "rs_valid s h" and res: "rs_string_reserve_ex s need h = (r, s', h')"
  shows "rs_valid s' h' \<and> rs_len s' = rs_len s \<and> content s' h' = content s h \<and>
         (r = 0 \<or> r = - 1) \<and> (rs_string_is_heap s \<longrightarrow> rs_string_is_heap s') \<and>
         (r = 0 \<longrightarrow> need \<le> rs_string_cap s') \<and>
         (need \<le> rs_string_cap s \<longrightarrow> r = 0 \<and> s' = s \<and> h' = h) \<and>
         (r = 0 \<and> rs_string_cap s < need \<longrightarrow>
            rs_string_cap s' = max need (rs_string_cap s + rs_string_cap s div 2 + 1) \<and>
            unique s' h') \<and>
         (unique s h \<longrightarrow> unique s' h') \<and>
         (never_fails h \<longrightarrow> r = 0 \<and> never_fails h')"
proof (cases "need \<le> rs_string_cap s")
  case True
  with v res show ?thesis
    by (auto simp: rs_string_reserve_ex_def)
next
  case big: False
  obtain r1 s1 h1 where eu: "rs__ensure_unique s h = (r1, s1, h1)"
    by (cases "rs__ensure_unique s h") auto
  note e = ensure_unique_spec [OF v eu]
  define ncap where "ncap = (if rs_string_cap s + rs_string_cap s div 2 + 1 < need then need
     else rs_string_cap s + rs_string_cap s div 2 + 1)"
  have ncap: "ncap = max need (rs_string_cap s + rs_string_cap s div 2 + 1)"
    "rs_string_cap s \<le> ncap" "need \<le> ncap"
    by (auto simp: ncap_def)
  show ?thesis
  proof (cases "r1 = 0")
    case False
    with big res eu have "r = - 1" "s' = s1" "h' = h1"
      by (auto simp: rs_string_reserve_ex_def)
    with e False big show ?thesis
      using unique_noop [of s h] eu by auto
  next
    case r1: True
    with e have v1: "rs_valid s1 h1" and u1: "unique s1 h1" by auto
    have res': "(case rs_p s1 of
                   Heap a \<Rightarrow>
                     (case rs__sys_realloc a (ncap + 1) h1 of
                        (None, h2) \<Rightarrow> (- 1, s1, h2)
                      | (Some na, h2) \<Rightarrow>
                          (0, s1\<lparr>rs_p := Heap na, rs_cap := ncap\<rparr>,
                           set_hdr na (\<lambda>x. x\<lparr>hdr_cap := ncap\<rparr>) h2))
                 | Sso \<Rightarrow>
                     (case rs__sys_malloc (ncap + 1) h1 of
                        (None, h2) \<Rightarrow> (- 1, s1, h2)
                      | (Some na, h2) \<Rightarrow>
                          (0, s1\<lparr>rs_p := Heap na, rs_cap := ncap\<rparr>,
                           set_hdr na (\<lambda>x. x\<lparr>hdr_data :=
                                        memcpy_at (hdr_data x) 0
                                          (take (rs_len s1 + 1) (rs_sso s1))\<rparr>)
                             (set_hdr na (\<lambda>x. x\<lparr>hdr_cap := ncap, hdr_rc := 1\<rparr>) h2)))) =
                (r, s', h')"
      using res big eu r1 unfolding rs_string_reserve_ex_def Let_def ncap_def by simp
    show ?thesis
    proof (cases "rs_p s1")
      case Sso
      obtain ro h2 where m: "rs__sys_malloc (ncap + 1) h1 = (ro, h2)"
        by (cases "rs__sys_malloc (ncap + 1) h1") auto
      show ?thesis
      proof (cases ro)
        case None
        with res' Sso m have "r = - 1" "s' = s1" "h' = h2"
          by auto
        moreover from m None have "h2 = h1\<lparr>ticks := Suc (ticks h1)\<rparr>" "\<not> never_fails h1"
          using malloc_None by auto
        ultimately show ?thesis using e big v1 u1 by auto
      next
        case (Some na)
        define h3 where "h3 = set_hdr na (\<lambda>x. x\<lparr>hdr_cap := ncap, hdr_rc := 1\<rparr>) h2"
        define h4 where "h4 = set_hdr na (\<lambda>x. x\<lparr>hdr_data :=
               memcpy_at (hdr_data x) 0 (take (rs_len s1 + 1) (rs_sso s1))\<rparr>) h3"
        from res' Sso m Some
        have r: "r = 0" "s' = s1\<lparr>rs_p := Heap na, rs_cap := ncap\<rparr>" "h' = h4"
          by (auto simp: h3_def h4_def)
        from e Sso have "rs_string_cap s = RS_SSO_CAP"
          by (simp add: rs_string_cap_def rs_string_is_heap_def)
        with ncap have "RS_SSO_CAP \<le> ncap" by simp
        from grow_sso [OF v1 Sso m [unfolded Some] this h3_def h4_def r(2)] r
        have g: "rs_valid s' h'" "content s' h' = content s1 h1" "unique s' h'"
          "never_fails h1 \<longrightarrow> never_fails h'"
          by auto
        have "rs_string_cap s' = ncap" "rs_string_is_heap s'" "rs_len s' = rs_len s1"
          using r by (auto simp: rs_string_cap_def rs_string_is_heap_def)
        with g e r ncap big show ?thesis by auto
      qed
    next
      case (Heap a)
      obtain ro h2 where m: "rs__sys_realloc a (ncap + 1) h1 = (ro, h2)"
        by (cases "rs__sys_realloc a (ncap + 1) h1") auto
      show ?thesis
      proof (cases ro)
        case None
        with res' Heap m have "r = - 1" "s' = s1" "h' = h2"
          by auto
        moreover from m None have "h2 = h1\<lparr>ticks := Suc (ticks h1)\<rparr>" "\<not> never_fails h1"
          using realloc_None by auto
        ultimately show ?thesis using e big v1 u1 by auto
      next
        case (Some na)
        from res' Heap m Some
        have r: "r = 0" "s' = s1\<lparr>rs_p := Heap na, rs_cap := ncap\<rparr>"
          "h' = set_hdr na (\<lambda>x. x\<lparr>hdr_cap := ncap\<rparr>) h2"
          by auto
        from e Heap have "rs_string_cap s = rs_cap s1"
          by (simp add: rs_string_cap_def rs_string_is_heap_def)
        with ncap have "rs_cap s1 \<le> ncap" by simp
        from grow_heap [OF v1 Heap u1 m [unfolded Some] this r(2) r(3)]
        have g: "rs_valid s' h'" "content s' h' = content s1 h1" "unique s' h'"
          "never_fails h1 \<longrightarrow> never_fails h'"
          by auto
        have "rs_string_cap s' = ncap" "rs_string_is_heap s'" "rs_len s' = rs_len s1"
          using r by (auto simp: rs_string_cap_def rs_string_is_heap_def)
        with g e r ncap big show ?thesis by auto
      qed
    next
      case Stale
      with v1 show ?thesis by (simp add: rs_valid_def)
    qed
  qed
qed

lemma assign_buf:
  assumes "length v < length b0" and "b = (memcpy_at b0 0 v)[length v := NUL]"
  shows "length b = length b0 \<and> take (length v) b = v \<and> b ! length v = NUL"
  using assms by (simp add: memcpy_at_in)

lemma upd_after:
  "length xs = k \<Longrightarrow> ys \<noteq> [] \<Longrightarrow>
     take k ((xs @ ys)[k := c]) = xs \<and> ((xs @ ys)[k := c]) ! k = c"
  by (cases ys) (simp_all add: list_update_append nth_append)

lemma append_buf:
  assumes "len + length v < length b0" and "b = (memcpy_at b0 len v)[len + length v := NUL]"
  shows "length b = length b0 \<and> take (len + length v) b = take len b0 @ v \<and>
         b ! (len + length v) = NUL"
proof -
  have m: "memcpy_at b0 len v = (take len b0 @ v) @ drop (len + length v) b0"
    using assms(1) by (simp add: memcpy_at_in)
  have "length (take len b0 @ v) = len + length v" "drop (len + length v) b0 \<noteq> []"
    using assms(1) by auto
  from upd_after [OF this] show ?thesis
    unfolding assms(2) m [symmetric] by simp
qed

lemma insert_buf:
  assumes "len + length v < length b0" and "pos \<le> len"
    and "b1 = memcpy_at b0 (pos + length v) (take (len - pos) (drop pos b0))"
    and "b2 = memcpy_at b1 pos v" and "b = b2[len + length v := NUL]"
  shows "length b = length b0 \<and>
         take (len + length v) b = take pos (take len b0) @ v @ drop pos (take len b0) \<and>
         b ! (len + length v) = NUL"
proof -
  define tl where "tl = take (len - pos) (drop pos b0)"
  have ltl: "length tl = len - pos"
    using assms(1,2) by (simp add: tl_def)
  have e1: "b1 = take (pos + length v) b0 @ tl @ drop (len + length v) b0"
  proof -
    have "pos + length v + length tl \<le> length b0"
      using assms(1,2) ltl by simp
    from memcpy_at_in [OF this] show ?thesis
      using assms(2) ltl unfolding assms(3) tl_def [symmetric] by (simp add: add.commute)
  qed
  have lb1: "length b1 = length b0"
    by (simp add: assms(3))
  have tk: "take pos b1 = take pos b0"
    unfolding e1 using assms(1,2) by simp
  have dr: "drop (pos + length v) b1 = tl @ drop (len + length v) b0"
    unfolding e1 using assms(1,2) by simp
  have e2: "b2 = (take pos b0 @ v @ tl) @ drop (len + length v) b0"
  proof -
    have "pos + length v \<le> length b1"
      using assms(1,2) lb1 by simp
    from memcpy_at_in [OF this] show ?thesis
      unfolding assms(4) tk dr by simp
  qed
  have la: "length (take pos b0 @ v @ tl) = len + length v"
    using assms(1,2) ltl by simp
  have ne: "drop (len + length v) b0 \<noteq> []"
    using assms(1) by simp
  have a: "take pos b0 @ v @ tl = take pos (take len b0) @ v @ drop pos (take len b0)"
    using assms(2) by (simp add: tl_def drop_take)
  from upd_after [OF la ne, of NUL] have "take (len + length v) b = take pos b0 @ v @ tl"
    and "b ! (len + length v) = NUL"
    unfolding assms(5) e2 by simp_all
  moreover have "length b = length b0"
    by (simp add: assms(5) assms(4) lb1)
  ultimately show ?thesis using a by simp
qed

lemma erase_buf:
  assumes "len < length b0" and "pos + n \<le> len"
    and "b = memcpy_at b0 pos (take (len - (pos + n) + 1) (drop (pos + n) b0))"
  shows "length b = length b0 \<and>
         take (len - n) b = take pos (take len b0) @ drop (pos + n) (take len b0) \<and>
         b ! (len - n) = b0 ! len"
proof -
  define chunk where "chunk = take (len - (pos + n) + 1) (drop (pos + n) b0)"
  have lc: "length chunk = len - (pos + n) + 1"
    using assms(1,2) by (simp add: chunk_def)
  have ch: "chunk = drop (pos + n) (take len b0) @ [b0 ! len]"
  proof -
    have "take (Suc len) b0 = take len b0 @ [b0 ! len]"
      using assms(1) by (simp add: take_Suc_conv_app_nth)
    moreover have "chunk = drop (pos + n) (take (Suc len) b0)"
      using assms(2) by (simp add: chunk_def drop_take Suc_diff_le)
    ultimately show ?thesis using assms(1,2) by simp
  qed
  have m: "b = take pos b0 @ chunk @ drop (pos + length chunk) b0"
    unfolding assms(3) chunk_def [symmetric]
    using assms(1,2) lc by (intro memcpy_at_in) simp
  define A where "A = take pos b0 @ drop (pos + n) (take len b0)"
  have lp: "length A = len - n"
    using assms(1,2) by (simp add: A_def)
  have b2: "b = A @ (b0 ! len # drop (pos + length chunk) b0)"
    unfolding m ch A_def by simp
  have "take (length A) b = A" "b ! (length A) = b0 ! len"
    unfolding b2 by simp_all
  then have "take (len - n) b = take pos b0 @ drop (pos + n) (take len b0)"
    and "b ! (len - n) = b0 ! len"
    unfolding lp by (simp_all add: A_def)
  moreover have "take pos (take len b0) = take pos b0"
    using assms(2) by simp
  ultimately show ?thesis by (simp add: assms(3))
qed

lemma set_buf_spec:
  assumes "rs_valid s h" and "length b = length (rs_buf s h)" and "n \<le> rs_string_cap s"
    and "b ! n = NUL" and "rs_set_buf s h b = (s1, h1)"
  shows "rs_valid (s1\<lparr>rs_len := n\<rparr>) h1 \<and> content (s1\<lparr>rs_len := n\<rparr>) h1 = take n b \<and>
         rs_string_is_heap (s1\<lparr>rs_len := n\<rparr>) = rs_string_is_heap s \<and>
         rs_string_cap (s1\<lparr>rs_len := n\<rparr>) = rs_string_cap s \<and>
         (unique s h \<longrightarrow> unique (s1\<lparr>rs_len := n\<rparr>) h1) \<and>
         (never_fails h \<longrightarrow> never_fails h1)"
  using assms
  by (auto simp: rs_valid_def rs_set_buf_def rs_buf_def content_def rs_string_cap_def
      rs_string_is_heap_def unique_def never_fails_def set_hdr_def
      split: ptr.splits option.splits)

lemma prepare_spec:
  assumes v: "rs_valid s h" and res: "rs_string_reserve_ex s need h = (r1, s1, h1)"
    and eu: "rs__ensure_unique s1 h1 = (r2, s2, h2)"
  shows "rs_valid s1 h1 \<and> rs_valid s2 h2 \<and>
         rs_len s1 = rs_len s \<and> content s1 h1 = content s h \<and>
         rs_len s2 = rs_len s \<and> content s2 h2 = content s h \<and>
         (r1 = 0 \<or> r1 = - 1) \<and> (r2 = 0 \<or> r2 = - 1) \<and>
         (r1 = 0 \<longrightarrow> need \<le> rs_string_cap s2) \<and>
         (rs_string_is_heap s \<longrightarrow> rs_string_is_heap s1 \<and> rs_string_is_heap s2) \<and>
         (r2 = 0 \<longrightarrow> unique s2 h2) \<and>
         (unique s h \<longrightarrow> r2 = 0 \<and> unique s1 h1 \<and> unique s2 h2) \<and>
         (never_fails h \<longrightarrow> r1 = 0 \<and> r2 = 0 \<and> never_fails h2)"
proof -
  note a = reserve_ex_spec [OF v res]
  then have v1: "rs_valid s1 h1" by simp
  note b = ensure_unique_spec [OF v1 eu]
  have "unique s h \<longrightarrow> r2 = 0 \<and> unique s1 h1 \<and> unique s2 h2"
    using a eu unique_noop [of s1 h1] by auto
  with a b show ?thesis by auto
qed

lemma assign_spec:
  assumes v: "rs_valid s h" and res: "rs_string_assign s w h = (r, s', h')"
  shows "rs_valid s' h' \<and> (r = 0 \<or> r = - 1) \<and>
         (rs_string_is_heap s \<longrightarrow> rs_string_is_heap s') \<and>
         (r = 0 \<longrightarrow> rs_len s' = length w \<and> content s' h' = w \<and> unique s' h') \<and>
         (r \<noteq> 0 \<longrightarrow> rs_len s' = rs_len s \<and> content s' h' = content s h) \<and>
         (never_fails h \<longrightarrow> r = 0 \<and> never_fails h')"
proof -
  obtain r1 s1 h1 where p1: "rs_string_reserve_ex s (length w) h = (r1, s1, h1)"
    by (cases "rs_string_reserve_ex s (length w) h") auto
  obtain r2 s2 h2 where p2: "rs__ensure_unique s1 h1 = (r2, s2, h2)"
    by (cases "rs__ensure_unique s1 h1") auto
  note p = prepare_spec [OF v p1 p2]
  show ?thesis
  proof (cases "r1 = 0 \<and> r2 = 0")
    case False
    with res p1 p2 have "r = - 1" "(s' = s1 \<and> h' = h1) \<or> (s' = s2 \<and> h' = h2)"
      by (auto simp: rs_string_assign_def split: if_splits)
    with p False show ?thesis by auto
  next
    case True
    define b where "b = (memcpy_at (rs_buf s2 h2) 0 w)[length w := NUL]"
    obtain s3 h3 where sb: "rs_set_buf s2 h2 b = (s3, h3)"
      by (cases "rs_set_buf s2 h2 b") auto
    from res p1 p2 True sb have r: "r = 0" "s' = s3\<lparr>rs_len := length w\<rparr>" "h' = h3"
      by (auto simp: rs_string_assign_def b_def Let_def)
    from p True have v2: "rs_valid s2 h2" and le: "length w \<le> rs_string_cap s2" by auto
    from le have "length w < length (rs_buf s2 h2)"
      using valid_buf_length [OF v2] by simp
    note bb = assign_buf [OF this b_def]
    from set_buf_spec [OF v2 _ le _ sb] bb p True r show ?thesis by auto
  qed
qed

lemma content_length: "rs_valid s h \<Longrightarrow> length (content s h) = rs_len s"
  using valid_buf_length [of s h] valid_len_cap [of s h] by (simp add: content_def)

lemma append_spec:
  assumes v: "rs_valid s h" and res: "rs_string_append s w h = (r, s', h')"
  shows "rs_valid s' h' \<and> (r = 0 \<or> r = - 1) \<and>
         (rs_string_is_heap s \<longrightarrow> rs_string_is_heap s') \<and>
         (r = 0 \<longrightarrow> rs_len s' = rs_len s + length w \<and> content s' h' = content s h @ w \<and>
                   unique s' h') \<and>
         (r \<noteq> 0 \<longrightarrow> rs_len s' = rs_len s \<and> content s' h' = content s h) \<and>
         (never_fails h \<longrightarrow> r = 0 \<and> never_fails h')"
proof -
  define need where "need = rs_len s + length w"
  obtain r1 s1 h1 where p1: "rs_string_reserve_ex s need h = (r1, s1, h1)"
    by (cases "rs_string_reserve_ex s need h") auto
  obtain r2 s2 h2 where p2: "rs__ensure_unique s1 h1 = (r2, s2, h2)"
    by (cases "rs__ensure_unique s1 h1") auto
  note p = prepare_spec [OF v p1 p2]
  show ?thesis
  proof (cases "r1 = 0 \<and> r2 = 0")
    case False
    with res p1 p2 have "r = - 1" "(s' = s1 \<and> h' = h1) \<or> (s' = s2 \<and> h' = h2)"
      by (auto simp: rs_string_append_def need_def Let_def split: if_splits)
    with p False show ?thesis by auto
  next
    case True
    define n where "n = rs_len s2 + length w"
    define b where "b = (memcpy_at (rs_buf s2 h2) (rs_len s2) w)[n := NUL]"
    obtain s3 h3 where sb: "rs_set_buf s2 h2 b = (s3, h3)"
      by (cases "rs_set_buf s2 h2 b") auto
    from res p1 p2 True sb have r: "r = 0" "s' = s3\<lparr>rs_len := n\<rparr>" "h' = h3"
      by (auto simp: rs_string_append_def b_def n_def need_def Let_def)
    from p True have v2: "rs_valid s2 h2" and le: "n \<le> rs_string_cap s2"
      by (auto simp: n_def need_def)
    from le have "rs_len s2 + length w < length (rs_buf s2 h2)"
      using valid_buf_length [OF v2] by (simp add: n_def)
    note bb = append_buf [OF this b_def [unfolded n_def], folded n_def]
    from set_buf_spec [OF v2 _ le _ sb] bb p True r show ?thesis
      by (auto simp: n_def content_def)
  qed
qed

lemma insert_spec:
  assumes v: "rs_valid s h" and res: "rs_string_insert s pos0 w h = (r, s', h')"
  shows "rs_valid s' h' \<and> (r = 0 \<or> r = - 1) \<and>
         (rs_string_is_heap s \<longrightarrow> rs_string_is_heap s') \<and>
         (r = 0 \<longrightarrow> rs_len s' = rs_len s + length w \<and>
                   content s' h' = take pos0 (content s h) @ w @ drop pos0 (content s h) \<and>
                   unique s' h') \<and>
         (r \<noteq> 0 \<longrightarrow> rs_len s' = rs_len s \<and> content s' h' = content s h) \<and>
         (unique s h \<longrightarrow> unique s' h') \<and>
         (never_fails h \<longrightarrow> r = 0 \<and> never_fails h')"
proof -
  define pos where "pos = (if pos0 > rs_len s then rs_len s else pos0)"
  define need where "need = rs_len s + length w"
  obtain r1 s1 h1 where p1: "rs_string_reserve_ex s need h = (r1, s1, h1)"
    by (cases "rs_string_reserve_ex s need h") auto
  obtain r2 s2 h2 where p2: "rs__ensure_unique s1 h1 = (r2, s2, h2)"
    by (cases "rs__ensure_unique s1 h1") auto
  note p = prepare_spec [OF v p1 p2]
  show ?thesis
  proof (cases "r1 = 0 \<and> r2 = 0")
    case False
    with res p1 p2 have "r = - 1" "(s' = s1 \<and> h' = h1) \<or> (s' = s2 \<and> h' = h2)"
      by (auto simp: rs_string_insert_def need_def Let_def split: if_splits)
    with p False show ?thesis by auto
  next
    case True
    define n where "n = rs_len s2 + length w"
    define b0 where "b0 = rs_buf s2 h2"
    define b1 where "b1 = memcpy_at b0 (pos + length w) (take (rs_len s2 - pos) (drop pos b0))"
    define b2 where "b2 = memcpy_at b1 pos w"
    define b where "b = b2[n := NUL]"
    obtain s3 h3 where sb: "rs_set_buf s2 h2 b = (s3, h3)"
      by (cases "rs_set_buf s2 h2 b") auto
    from res p1 p2 True sb have r: "r = 0" "s' = s3\<lparr>rs_len := n\<rparr>" "h' = h3"
      by (auto simp: rs_string_insert_def b_def b2_def b1_def b0_def n_def need_def pos_def Let_def)
    from p True have v2: "rs_valid s2 h2" and le: "n \<le> rs_string_cap s2"
      and l2: "rs_len s2 = rs_len s"
      by (auto simp: n_def need_def)
    from le have lt: "rs_len s2 + length w < length b0"
      using valid_buf_length [OF v2] by (simp add: n_def b0_def)
    have pl: "pos \<le> rs_len s2" by (simp add: pos_def l2)
    note bb = insert_buf [OF lt pl b1_def b2_def b_def [unfolded n_def], folded n_def]
    from bb have lb: "length b = length (rs_buf s2 h2)" and tm: "b ! n = NUL"
      by (simp_all add: b0_def)
    note sbs = set_buf_spec [OF v2 lb le tm sb]
    from p have "content s2 h2 = content s h" by simp
    then have c2: "take (rs_len s2) b0 = content s h"
      by (simp only: content_def b0_def)
    have tp: "take pos (content s h) = take pos0 (content s h)"
      and dp: "drop pos (content s h) = drop pos0 (content s h)"
      using content_length [OF v] by (auto simp: pos_def)
    from sbs r have "content s' h' = take n b" by simp
    also from bb have "\<dots> = take pos (take (rs_len s2) b0) @ w @ drop pos (take (rs_len s2) b0)"
      by blast
    also have "\<dots> = take pos0 (content s h) @ w @ drop pos0 (content s h)"
      by (simp only: c2 tp dp)
    finally have cont: "content s' h' = take pos0 (content s h) @ w @ drop pos0 (content s h)" .
    have "rs_len s' = rs_len s + length w"
      using r l2 by (simp add: n_def)
    with cont sbs r p True show ?thesis by auto
  qed
qed

lemma erase_spec:
  assumes v: "rs_valid s h" and res: "rs_string_erase s pos n0 h = (r, s', h')"
  shows "rs_valid s' h' \<and> (r = 0 \<or> r = - 1) \<and>
         (rs_string_is_heap s \<longrightarrow> rs_string_is_heap s') \<and>
         rs_string_cap s' = rs_string_cap s \<and>
         (r = 0 \<longrightarrow> rs_len s' = rs_len s - min n0 (rs_len s - pos) \<and>
                   content s' h' = take pos (content s h) @ drop (pos + n0) (content s h)) \<and>
         (r = 0 \<and> pos \<le> rs_len s \<longrightarrow> unique s' h') \<and>
         (r \<noteq> 0 \<longrightarrow> rs_len s' = rs_len s \<and> content s' h' = content s h) \<and>
         (unique s h \<longrightarrow> r = 0 \<and> unique s' h') \<and>
         (never_fails h \<longrightarrow> r = 0 \<and> never_fails h')"
proof (cases "pos > rs_len s")
  case True
  with res have "r = 0" "s' = s" "h' = h"
    by (auto simp: rs_string_erase_def)
  with v True content_length [OF v] show ?thesis by auto
next
  case False
  define n where "n = (if pos + n0 > rs_len s then rs_len s - pos else n0)"
  obtain r1 s1 h1 where p1: "rs__ensure_unique s h = (r1, s1, h1)"
    by (cases "rs__ensure_unique s h") auto
  note e = ensure_unique_spec [OF v p1]
  have uq: "unique s h \<longrightarrow> r1 = 0"
    using p1 unique_noop [of s h] by auto
  show ?thesis
  proof (cases "r1 = 0")
    case r1: False
    with res p1 \<open>\<not> pos > rs_len s\<close> have "r = - 1" "s' = s1" "h' = h1"
      by (auto simp: rs_string_erase_def Let_def)
    with e r1 uq show ?thesis by auto
  next
    case True
    define b0 where "b0 = rs_buf s1 h1"
    define b where "b = memcpy_at b0 pos (take (rs_len s1 - (pos + n) + 1) (drop (pos + n) b0))"
    obtain s2 h2 where sb: "rs_set_buf s1 h1 b = (s2, h2)"
      by (cases "rs_set_buf s1 h1 b") auto
    from res p1 True sb \<open>\<not> pos > rs_len s\<close>
    have r: "r = 0" "s' = s2\<lparr>rs_len := rs_len s1 - n\<rparr>" "h' = h2"
      by (auto simp: rs_string_erase_def b_def b0_def n_def Let_def)
    from e have v1: "rs_valid s1 h1" and l1: "rs_len s1 = rs_len s" by auto
    have lt: "rs_len s1 < length b0"
      using valid_buf_length [OF v1] valid_len_cap [OF v1] by (simp add: b0_def)
    have pn: "pos + n \<le> rs_len s1"
      using False by (auto simp: n_def l1)
    note bb = erase_buf [OF lt pn b_def]
    have le: "rs_len s1 - n \<le> rs_string_cap s1"
      using valid_len_cap [OF v1] by simp
    have tm: "b ! (rs_len s1 - n) = NUL"
      using bb valid_terminator [OF v1] by (simp add: b0_def)
    from bb have lb: "length b = length (rs_buf s1 h1)"
      by (simp add: b0_def)
    note sbs = set_buf_spec [OF v1 lb le tm sb]
    from e have "content s1 h1 = content s h" by simp
    then have c1: "take (rs_len s1) b0 = content s h"
      by (simp only: content_def b0_def)
    have dr: "drop (pos + n) (content s h) = drop (pos + n0) (content s h)"
      using content_length [OF v] by (auto simp: n_def)
    have nn: "n = min n0 (rs_len s - pos)"
      using False by (auto simp: n_def)
    from sbs r have "content s' h' = take (rs_len s1 - n) b" by simp
    also from bb have "\<dots> = take pos (take (rs_len s1) b0) @ drop (pos + n) (take (rs_len s1) b0)"
      by blast
    also have "\<dots> = take pos (content s h) @ drop (pos + n0) (content s h)"
      by (simp only: c1 dr)
    finally have cont: "content s' h' = take pos (content s h) @ drop (pos + n0) (content s h)" .
    have "rs_len s' = rs_len s - min n0 (rs_len s - pos)"
      using r l1 nn by simp
    with cont sbs r e True uq show ?thesis by auto
  qed
qed


section \<open>Searching and replacing\<close>

lemma memcmp_scan_first:
  "memcmp_scan p n what i = Some pos \<Longrightarrow> i \<le> j \<Longrightarrow> j < pos \<Longrightarrow>
     take (length what) (drop j p) \<noteq> what"
proof (induction p n what i rule: memcmp_scan.induct)
  case (1 p n what i)
  note unf = memcmp_scan.simps [of p n what i]
  show ?case
  proof (cases "i + length what \<le> n")
    case False
    with "1.prems" unf show ?thesis by simp
  next
    case le: True
    show ?thesis
    proof (cases "take (length what) (drop i p) = what")
      case True
      with le "1.prems" unf show ?thesis by simp
    next
      case False
      with le "1.prems" unf have r: "memcmp_scan p n what (i + 1) = Some pos" by simp
      show ?thesis
      proof (cases "j = i")
        case True
        with False show ?thesis by simp
      next
        case ne: False
        with "1.prems" have "i + 1 \<le> j" by simp
        from "1.IH" [OF le False r this "1.prems"(3)] show ?thesis .
      qed
    qed
  qed
qed

lemma memcmp_scan_None:
  "memcmp_scan p n what i = None \<Longrightarrow> i \<le> j \<Longrightarrow> j + length what \<le> n \<Longrightarrow>
     take (length what) (drop j p) \<noteq> what"
proof (induction p n what i rule: memcmp_scan.induct)
  case (1 p n what i)
  note unf = memcmp_scan.simps [of p n what i]
  from "1.prems" have le: "i + length what \<le> n" by simp
  show ?case
  proof (cases "take (length what) (drop i p) = what")
    case True
    with le "1.prems" unf show ?thesis by simp
  next
    case False
    with le "1.prems" unf have r: "memcmp_scan p n what (i + 1) = None" by simp
    show ?thesis
    proof (cases "j = i")
      case True
      with False show ?thesis by simp
    next
      case ne: False
      with "1.prems" have "i + 1 \<le> j" by simp
      from "1.IH" [OF le False r this "1.prems"(3)] show ?thesis .
    qed
  qed
qed

text \<open>No occurrence among the first k offsets: the spec copies k bytes.\<close>

lemma replace_all_spec_skip:
  assumes "frm \<noteq> []"
  shows "k \<le> length xs \<Longrightarrow> (\<And>j. j < k \<Longrightarrow> take (length frm) (drop j xs) \<noteq> frm) \<Longrightarrow>
     replace_all_spec frm rep xs = take k xs @ replace_all_spec frm rep (drop k xs) \<and>
     replace_count_spec frm xs = replace_count_spec frm (drop k xs)"
proof (induction k arbitrary: xs)
  case 0
  show ?case by simp
next
  case (Suc k)
  from Suc.prems(1) obtain x xs' where xs: "xs = x # xs'" by (cases xs) auto
  from Suc.prems(2) [of 0] have n0: "take (length frm) xs \<noteq> frm" by simp
  have "\<And>j. j < k \<Longrightarrow> take (length frm) (drop j xs') \<noteq> frm"
    using Suc.prems(2) [of "Suc j" for j] by (simp add: xs)
  with Suc.IH [of xs'] Suc.prems(1) xs
  have "replace_all_spec frm rep xs' = take k xs' @ replace_all_spec frm rep (drop k xs')"
    "replace_count_spec frm xs' = replace_count_spec frm (drop k xs')"
    by auto
  moreover have "replace_all_spec frm rep xs = x # replace_all_spec frm rep xs'"
    using n0 assms by (subst replace_all_spec.simps) (simp add: xs)
  moreover have "replace_count_spec frm xs = replace_count_spec frm xs'"
    using n0 assms by (subst replace_count_spec.simps) (simp add: xs)
  ultimately show ?case by (simp add: xs)
qed


lemma take_drop_take: "j + m \<le> n \<Longrightarrow> take m (drop j (take n p)) = take m (drop j p)"
  by (simp add: drop_take min_def)

lemma spec_no_match:
  assumes "frm \<noteq> []" and "\<And>j. j + length frm \<le> length xs \<Longrightarrow> take (length frm) (drop j xs) \<noteq> frm"
  shows "replace_all_spec frm rep xs = xs \<and> replace_count_spec frm xs = 0"
proof -
  have "take (length frm) (drop j xs) \<noteq> frm" for j
  proof (cases "j + length frm \<le> length xs")
    case True
    with assms(2) show ?thesis .
  next
    case False
    with assms(1) have "length (take (length frm) (drop j xs)) < length frm"
      by (cases frm) auto
    then show ?thesis by auto
  qed
  moreover have "replace_all_spec frm rep [] = []" "replace_count_spec frm [] = 0"
    using assms(1) by (simp_all add: replace_all_spec.simps replace_count_spec.simps)
  ultimately show ?thesis
    using replace_all_spec_skip [OF assms(1), of "length xs" xs rep] by simp
qed

lemma spec_first_match:
  assumes "frm \<noteq> []" and "k + length frm \<le> length xs"
    and "take (length frm) (drop k xs) = frm"
    and "\<And>j. j < k \<Longrightarrow> take (length frm) (drop j xs) \<noteq> frm"
  shows "replace_all_spec frm rep xs =
           take k xs @ rep @ replace_all_spec frm rep (drop (k + length frm) xs) \<and>
         replace_count_spec frm xs = 1 + replace_count_spec frm (drop (k + length frm) xs)"
proof -
  from assms(2) have "k \<le> length xs" by simp
  from replace_all_spec_skip [OF assms(1) this, of rep] assms(4)
  have a: "replace_all_spec frm rep xs = take k xs @ replace_all_spec frm rep (drop k xs)"
    "replace_count_spec frm xs = replace_count_spec frm (drop k xs)"
    by auto
  have "replace_all_spec frm rep (drop k xs) =
          rep @ replace_all_spec frm rep (drop (length frm) (drop k xs))"
    using assms(1,3) by (subst replace_all_spec.simps) simp
  moreover have "replace_count_spec frm (drop k xs) =
          1 + replace_count_spec frm (drop (length frm) (drop k xs))"
    using assms(1,3) by (subst replace_count_spec.simps) simp
  ultimately show ?thesis using a by (simp add: add.commute)
qed

lemma find_Some:
  assumes v: "rs_valid s h" and ne: "frm \<noteq> []"
    and f: "rs_string_find s frm i h = Some pos"
  shows "i \<le> pos \<and> pos + length frm \<le> rs_len s \<and>
         take (length frm) (drop pos (content s h)) = frm \<and>
         (\<forall>j. i \<le> j \<and> j < pos \<longrightarrow> take (length frm) (drop j (content s h)) \<noteq> frm)"
proof -
  from f ne have m: "memcmp_scan (rs_buf s h) (rs_len s) frm i = Some pos"
    by (simp add: rs_string_find_def)
  from memcmp_scan_Some [OF m]
  have a1: "i \<le> pos" and a2: "pos + length frm \<le> rs_len s"
    and a3: "take (length frm) (drop pos (rs_buf s h)) = frm"
    by blast+
  have b: "take (length frm) (drop j (content s h)) \<noteq> frm" if "i \<le> j" "j < pos" for j
  proof -
    from that a2 have "j + length frm \<le> rs_len s" by simp
    from take_drop_take [OF this]
    have "take (length frm) (drop j (content s h)) = take (length frm) (drop j (rs_buf s h))"
      by (simp only: content_def)
    with memcmp_scan_first [OF m that] show ?thesis by simp
  qed
  from take_drop_take [OF a2]
  have "take (length frm) (drop pos (content s h)) = take (length frm) (drop pos (rs_buf s h))"
    by (simp only: content_def)
  with a3 have c: "take (length frm) (drop pos (content s h)) = frm" by simp
  from a1 a2 c b show ?thesis by blast
qed

lemma find_None:
  assumes ne: "frm \<noteq> []" and f: "rs_string_find s frm i h = None"
    and j: "i \<le> j" "j + length frm \<le> rs_len s"
  shows "take (length frm) (drop j (content s h)) \<noteq> frm"
proof -
  from f ne have m: "memcmp_scan (rs_buf s h) (rs_len s) frm i = None"
    by (simp add: rs_string_find_def)
  from take_drop_take [OF j(2)]
  have "take (length frm) (drop j (content s h)) = take (length frm) (drop j (rs_buf s h))"
    by (simp only: content_def)
  with memcmp_scan_None [OF m j] show ?thesis by simp
qed

lemma take_take_drop: "i \<le> pos \<Longrightarrow> take i c @ take (pos - i) (drop i c) = take pos c"
  by (metis le_add_diff_inverse take_add)

lemma replace_all_loop_total:
  assumes ne: "frm \<noteq> []"
  shows "rs_valid s h \<Longrightarrow> never_fails h \<Longrightarrow> i \<le> rs_len s \<Longrightarrow>
     \<exists>s' h'. replace_all_loop s frm rep i c h =
                Some (c + int (replace_count_spec frm (drop i (content s h))), s', h') \<and>
              rs_valid s' h' \<and> never_fails h' \<and>
              content s' h' = take i (content s h) @ replace_all_spec frm rep (drop i (content s h)) \<and>
              (rs_string_is_heap s \<longrightarrow> rs_string_is_heap s')"
proof (induction "rs_len s - i" arbitrary: s i c h rule: less_induct)
  case less
  note v = less.prems(1) and nf = less.prems(2) and il = less.prems(3)
  define cs where "cs = content s h"
  have lcs: "length cs = rs_len s"
    using content_length [OF v] by (simp add: cs_def)
  show ?case
  proof (cases "rs_string_find s frm i h")
    case None
    have l: "replace_all_loop s frm rep i c h = Some (c, s, h)"
      by (subst replace_all_loop.simps) (simp add: None)
    have "take (length frm) (drop j (drop i cs)) \<noteq> frm" if "j + length frm \<le> length (drop i cs)" for j
    proof -
      from that lcs il have "i + j + length frm \<le> rs_len s" by simp
      from find_None [OF ne None _ this] show ?thesis
        by (simp add: cs_def add.commute)
    qed
    from spec_no_match [OF ne this, of rep]
    have "replace_all_spec frm rep (drop i cs) = drop i cs" "replace_count_spec frm (drop i cs) = 0"
      by auto
    with l v nf show ?thesis by (simp add: cs_def)
  next
    case (Some pos)
    from find_Some [OF v ne Some]
    have ip: "i \<le> pos" and pl: "pos + length frm \<le> rs_len s"
      and mt: "take (length frm) (drop pos cs) = frm"
      and fst: "\<And>j. i \<le> j \<Longrightarrow> j < pos \<Longrightarrow> take (length frm) (drop j cs) \<noteq> frm"
      by (auto simp: cs_def)
    obtain r1 s1 h1 where e: "rs_string_erase s pos (length frm) h = (r1, s1, h1)"
      by (cases "rs_string_erase s pos (length frm) h") auto
    from erase_spec [OF v e] nf pl
    have v1: "rs_valid s1 h1" and nf1: "never_fails h1" and r1: "r1 = 0"
      and l1: "rs_len s1 = rs_len s - length frm"
      and c1: "content s1 h1 = take pos cs @ drop (pos + length frm) cs"
      and hp1: "rs_string_is_heap s \<longrightarrow> rs_string_is_heap s1"
      by (auto simp: cs_def min_def)
    obtain r2 s2 h2 where n: "rs_string_insert s1 pos rep h1 = (r2, s2, h2)"
      by (cases "rs_string_insert s1 pos rep h1") auto
    from insert_spec [OF v1 n] nf1
    have v2: "rs_valid s2 h2" and nf2: "never_fails h2" and r2: "r2 = 0"
      and l2: "rs_len s2 = rs_len s1 + length rep"
      and c2': "content s2 h2 = take pos (content s1 h1) @ rep @ drop pos (content s1 h1)"
      and hp2: "rs_string_is_heap s1 \<longrightarrow> rs_string_is_heap s2"
      by auto
    have pc: "pos \<le> length cs" using pl lcs by simp
    define A where "A = take pos cs @ rep"
    have c2: "content s2 h2 = A @ drop (pos + length frm) cs"
      unfolding c2' c1 A_def using pc by simp
    have lt: "length A = pos + length rep"
      using pc by (simp add: A_def)
    have "take (length A) (A @ drop (pos + length frm) cs) = A"
      "drop (length A) (A @ drop (pos + length frm) cs) = drop (pos + length frm) cs"
      by simp_all
    then have tk2: "take (pos + length rep) (content s2 h2) = take pos cs @ rep"
      and dr2: "drop (pos + length rep) (content s2 h2) = drop (pos + length frm) cs"
      unfolding c2 [symmetric] lt by (simp_all add: A_def)
    have l: "replace_all_loop s frm rep i c h =
             replace_all_loop s2 frm rep (pos + length rep) (c + 1) h2"
      by (subst replace_all_loop.simps) (simp add: Some e n)
    have fl: "0 < length frm" using ne by simp
    have "rs_len s2 - (pos + length rep) < rs_len s - i"
      using l2 l1 pl ip fl by arith
    moreover have "pos + length rep \<le> rs_len s2"
      using l2 l1 pl by simp
    ultimately obtain s' h' where
      r: "replace_all_loop s2 frm rep (pos + length rep) (c + 1) h2 =
            Some (c + 1 + int (replace_count_spec frm (drop (pos + length rep) (content s2 h2))), s', h')"
      and v': "rs_valid s' h'" and nf': "never_fails h'"
      and c': "content s' h' = take (pos + length rep) (content s2 h2) @
                 replace_all_spec frm rep (drop (pos + length rep) (content s2 h2))"
      and hp': "rs_string_is_heap s2 \<longrightarrow> rs_string_is_heap s'"
      using less.hyps [OF _ v2 nf2, of "pos + length rep" "c + 1"] by blast
    have k1: "pos - i + length frm \<le> length (drop i cs)"
      using pl ip lcs by simp
    have k2: "take (length frm) (drop (pos - i) (drop i cs)) = frm"
      using mt ip by simp
    have k3: "take (length frm) (drop j (drop i cs)) \<noteq> frm" if "j < pos - i" for j
      using fst [of "i + j"] that by (simp add: add.commute)
    from spec_first_match [OF ne k1 k2 k3, of rep]
    have sp: "replace_all_spec frm rep (drop i cs) =
                take (pos - i) (drop i cs) @ rep @ replace_all_spec frm rep (drop (pos + length frm) cs)"
      and ct: "replace_count_spec frm (drop i cs) =
                1 + replace_count_spec frm (drop (pos + length frm) cs)"
      using ip by (simp_all add: add.commute add.left_commute)
    have "content s' h' = take i cs @ replace_all_spec frm rep (drop i cs)"
      unfolding c' tk2 dr2 sp using take_take_drop [OF ip, of cs] by simp
    moreover have "replace_all_loop s frm rep i c h =
        Some (c + int (replace_count_spec frm (drop i cs)), s', h')"
      unfolding l r dr2 ct by simp
    ultimately show ?thesis
      using v' nf' hp' hp1 hp2 by (auto simp: cs_def)
  qed
qed

lemma replace_all_loop_partial:
  assumes run: "replace_all_loop s frm rep i c h = Some y" and v: "rs_valid s h"
  shows "rs_valid (fst (snd y)) (snd (snd y)) \<and>
         (rs_string_is_heap s \<longrightarrow> rs_string_is_heap (fst (snd y)))"
proof -
  have "rs_valid s h \<longrightarrow> rs_valid (fst (snd y)) (snd (snd y)) \<and>
         (rs_string_is_heap s \<longrightarrow> rs_string_is_heap (fst (snd y)))"
  proof (rule replace_all_loop.raw_induct
      [where P = "\<lambda>s frm rep i c h y. rs_valid s h \<longrightarrow> rs_valid (fst (snd y)) (snd (snd y)) \<and>
         (rs_string_is_heap s \<longrightarrow> rs_string_is_heap (fst (snd y)))", OF _ run])
    fix loop s frm rep i c h y
    assume IH: "\<And>s frm rep i c h y. loop s frm rep i c h = Some y \<Longrightarrow>
        rs_valid s h \<longrightarrow> rs_valid (fst (snd y)) (snd (snd y)) \<and>
         (rs_string_is_heap s \<longrightarrow> rs_string_is_heap (fst (snd y)))"
      and body: "(case rs_string_find s frm i h of
                    None \<Rightarrow> Some (c, s, h)
                  | Some pos \<Rightarrow>
                      (case rs_string_erase s pos (length frm) h of
                         (r1, s1, h1) \<Rightarrow>
                           (case rs_string_insert s1 pos rep h1 of
                              (r2, s2, h2) \<Rightarrow> loop s2 frm rep (pos + length rep) (c + 1) h2))) =
                 Some y"
    show "rs_valid s h \<longrightarrow> rs_valid (fst (snd y)) (snd (snd y)) \<and>
         (rs_string_is_heap s \<longrightarrow> rs_string_is_heap (fst (snd y)))"
    proof
      assume v: "rs_valid s h"
      show "rs_valid (fst (snd y)) (snd (snd y)) \<and>
         (rs_string_is_heap s \<longrightarrow> rs_string_is_heap (fst (snd y)))"
      proof (cases "rs_string_find s frm i h")
        case None
        with body v show ?thesis by auto
      next
        case (Some pos)
        obtain r1 s1 h1 where e: "rs_string_erase s pos (length frm) h = (r1, s1, h1)"
          by (cases "rs_string_erase s pos (length frm) h") auto
        obtain r2 s2 h2 where n: "rs_string_insert s1 pos rep h1 = (r2, s2, h2)"
          by (cases "rs_string_insert s1 pos rep h1") auto
        from erase_spec [OF v e] have v1: "rs_valid s1 h1"
          and hp1: "rs_string_is_heap s \<longrightarrow> rs_string_is_heap s1" by auto
        from insert_spec [OF v1 n] have v2: "rs_valid s2 h2"
          and hp2: "rs_string_is_heap s1 \<longrightarrow> rs_string_is_heap s2" by auto
        from body Some e n
        have "loop s2 frm rep (pos + length rep) (c + 1) h2 = Some y" by simp
        from IH [OF this] v2 hp1 hp2 show ?thesis by auto
      qed
    qed
  qed
  with v show ?thesis by simp
qed

lemma takeWhile_dropWhile_Nil: "takeWhile P (dropWhile P xs) = []"
  by (induction xs) auto

lemma trim_left_scan_eq:
  "i \<le> n \<Longrightarrow> n \<le> length p \<Longrightarrow>
     trim_left_scan p n i = i + length (takeWhile is_space_byte (drop i (take n p)))"
proof (induction p n i rule: trim_left_scan.induct)
  case (1 p n i)
  note unf = trim_left_scan.simps [of p n i]
  show ?case
  proof (cases "i < n")
    case False
    with "1.prems" unf show ?thesis by simp
  next
    case lt: True
    with "1.prems" have "i < length (take n p)" by simp
    from Cons_nth_drop_Suc [OF this] lt
    have d: "drop i (take n p) = p ! i # drop (Suc i) (take n p)"
      by simp
    show ?thesis
    proof (cases "of_char (p ! i) \<le> (0x20 :: nat)")
      case True
      with lt unf "1.IH" "1.prems" d show ?thesis
        by (simp add: is_space_byte_def)
    next
      case False
      with lt unf d show ?thesis
        by (simp add: is_space_byte_def)
    qed
  qed
qed

lemma trim_right_scan_eq:
  "e \<le> length p \<Longrightarrow>
     trim_right_scan p e = e - length (takeWhile is_space_byte (rev (take e p)))"
proof (induction e)
  case 0
  show ?case by simp
next
  case (Suc e)
  then have t: "take (Suc e) p = take e p @ [p ! e]"
    by (simp add: take_Suc_conv_app_nth)
  show ?case
  proof (cases "of_char (p ! e) \<le> (0x20 :: nat)")
    case True
    with Suc t show ?thesis by (simp add: is_space_byte_def)
  next
    case False
    with t show ?thesis by (simp add: is_space_byte_def)
  qed
qed

lemma take_rev_dropWhile:
  "take (length xs - length (takeWhile P (rev xs))) xs = rev (dropWhile P (rev xs))"
proof -
  have "rev (dropWhile P (rev xs)) = rev (drop (length (takeWhile P (rev xs))) (rev xs))"
    by (simp add: dropWhile_eq_drop)
  also have "\<dots> = take (length xs - length (takeWhile P (rev xs))) xs"
    by (simp add: rev_drop)
  finally show ?thesis by simp
qed

lemma trim_left_spec:
  assumes v: "rs_valid s h" and res: "rs_string_trim_left s h = (r, s', h')"
  shows "rs_valid s' h' \<and> (r = 0 \<or> r = - 1) \<and>
         (rs_string_is_heap s \<longrightarrow> rs_string_is_heap s') \<and>
         (r = 0 \<longrightarrow> content s' h' = dropWhile is_space_byte (content s h) \<and>
                   rs_string_trim_left s' h' = (0, s', h')) \<and>
         (r \<noteq> 0 \<longrightarrow> rs_len s' = rs_len s \<and> content s' h' = content s h) \<and>
         (unique s h \<longrightarrow> r = 0) \<and>
         (never_fails h \<longrightarrow> r = 0 \<and> never_fails h')"
proof -
  define i where "i = trim_left_scan (rs_buf s h) (rs_len s) 0"
  have le: "rs_len s \<le> length (rs_buf s h)"
    using valid_buf_length [OF v] valid_len_cap [OF v] by simp
  have i: "i = length (takeWhile is_space_byte (content s h))"
    using trim_left_scan_eq [of 0 "rs_len s" "rs_buf s h"] le by (simp add: i_def content_def)
  have idem: "rs_string_trim_left t g = (0, t, g)"
    if "rs_valid t g" "content t g = dropWhile is_space_byte (content s h)" for t g
  proof -
    have "rs_len t \<le> length (rs_buf t g)"
      using valid_buf_length [OF that(1)] valid_len_cap [OF that(1)] by simp
    with trim_left_scan_eq [of 0 "rs_len t" "rs_buf t g"]
    have "trim_left_scan (rs_buf t g) (rs_len t) 0 = length (takeWhile is_space_byte (content t g))"
      by (simp add: content_def)
    also have "\<dots> = 0"
      unfolding that(2) by (simp add: takeWhile_dropWhile_Nil)
    finally show ?thesis by (simp add: rs_string_trim_left_def)
  qed
  show ?thesis
  proof (cases "i = 0")
    case True
    with res have r: "r = 0" "s' = s" "h' = h"
      by (auto simp: rs_string_trim_left_def i_def)
    from True i have c: "dropWhile is_space_byte (content s h) = content s h"
      by (cases "content s h") (auto split: if_splits)
    from idem [OF v c [symmetric]] r c v show ?thesis by simp
  next
    case False
    with res have e: "rs_string_erase s 0 i h = (r, s', h')"
      by (auto simp: rs_string_trim_left_def i_def Let_def)
    note es = erase_spec [OF v e]
    have "r = 0 \<longrightarrow> content s' h' = dropWhile is_space_byte (content s h)"
      using es by (simp add: i dropWhile_eq_drop)
    with es idem show ?thesis by auto
  qed
qed

lemma trim_right_spec:
  assumes v: "rs_valid s h" and res: "rs_string_trim_right s h = (r, s', h')"
  shows "rs_valid s' h' \<and> (r = 0 \<or> r = - 1) \<and>
         (rs_string_is_heap s \<longrightarrow> rs_string_is_heap s') \<and>
         (r = 0 \<longrightarrow> content s' h' = rev (dropWhile is_space_byte (rev (content s h))) \<and>
                   rs_string_trim_right s' h' = (0, s', h')) \<and>
         (r \<noteq> 0 \<longrightarrow> rs_len s' = rs_len s \<and> content s' h' = content s h) \<and>
         (unique s h \<longrightarrow> r = 0 \<and> unique s' h') \<and>
         (never_fails h \<longrightarrow> r = 0 \<and> never_fails h')"
proof -
  define size where "size = trim_right_scan (rs_buf s h) (rs_len s)"
  have scan: "trim_right_scan (rs_buf t g) (rs_len t) =
                rs_len t - length (takeWhile is_space_byte (rev (content t g)))"
    if "rs_valid t g" for t g
  proof -
    have "rs_len t \<le> length (rs_buf t g)"
      using valid_buf_length [OF that] valid_len_cap [OF that] by simp
    from trim_right_scan_eq [OF this] show ?thesis by (simp add: content_def)
  qed
  have sz: "size = rs_len s - length (takeWhile is_space_byte (rev (content s h)))"
    using scan [OF v] by (simp add: size_def)
  have tk: "take size (content s h) = rev (dropWhile is_space_byte (rev (content s h)))"
    using take_rev_dropWhile [of "content s h" is_space_byte] content_length [OF v]
    by (simp add: sz)
  have idem: "rs_string_trim_right t g = (0, t, g)"
    if t: "rs_valid t g" "content t g = rev (dropWhile is_space_byte (rev (content s h)))" for t g
  proof -
    have "takeWhile is_space_byte (rev (content t g)) = []"
      unfolding t(2) by (simp add: takeWhile_dropWhile_Nil)
    with scan [OF t(1)] have "trim_right_scan (rs_buf t g) (rs_len t) = rs_len t" by simp
    then show ?thesis by (simp add: rs_string_trim_right_def)
  qed
  show ?thesis
  proof (cases "rs_len s = 0 \<or> size = rs_len s")
    case True
    with res have r: "r = 0" "s' = s" "h' = h"
      by (auto simp: rs_string_trim_right_def size_def Let_def split: if_splits)
    from True have "take size (content s h) = content s h"
      using content_length [OF v] sz by auto
    with tk have c: "content s h = rev (dropWhile is_space_byte (rev (content s h)))" by simp
    from idem [OF v c] r c v show ?thesis by simp
  next
    case False
    with res have e: "rs_string_erase s size (rs_len s - size) h = (r, s', h')"
      by (auto simp: rs_string_trim_right_def size_def Let_def split: if_splits)
    note es = erase_spec [OF v e]
    have sl: "size \<le> rs_len s" by (simp add: sz)
    have "r = 0 \<longrightarrow> content s' h' = rev (dropWhile is_space_byte (rev (content s h)))"
      using es tk sl content_length [OF v] by simp
    with es idem show ?thesis by auto
  qed
qed

lemma find_absent_or_range:
  assumes v: "rs_valid s h" and f: "rs_string_find s frm i h = Some pos"
  shows "pos + length frm \<le> rs_len s \<or> (frm = [] \<and> pos = i \<and> i \<le> rs_len s)"
proof (cases "frm = []")
  case True
  with f show ?thesis by (auto simp: rs_string_find_def split: if_splits)
next
  case False
  from find_Some [OF v False f] show ?thesis by simp
qed

lemma replace_first_spec:
  assumes v: "rs_valid s h" and res: "rs_string_replace_first s frm rep h = (r, s', h')"
  shows "rs_valid s' h' \<and> (r = 0 \<or> r = - 1) \<and>
         (rs_string_is_heap s \<longrightarrow> rs_string_is_heap s') \<and>
         (rs_string_find s frm 0 h = None \<longrightarrow> r = 0 \<and> s' = s \<and> h' = h) \<and>
         (\<forall>pos. rs_string_find s frm 0 h = Some pos \<and> never_fails h \<longrightarrow>
            r = 0 \<and> never_fails h' \<and>
            content s' h' = take pos (content s h) @ rep @ drop (pos + length frm) (content s h))"
proof (cases "rs_string_find s frm 0 h")
  case None
  with res v show ?thesis by (auto simp: rs_string_replace_first_def)
next
  case (Some pos)
  from find_absent_or_range [OF v Some] have pl: "pos \<le> rs_len s" by auto
  define cs where "cs = content s h"
  have lcs: "length cs = rs_len s" using content_length [OF v] by (simp add: cs_def)
  have core: "rs_valid s2 h2 \<and> (r2 = 0 \<or> r2 = - 1) \<and>
         (rs_string_is_heap s0 \<longrightarrow> rs_string_is_heap s2) \<and>
         (never_fails h0 \<longrightarrow> r2 = 0 \<and> never_fails h2 \<and>
            content s2 h2 = take pos cs @ rep @ drop (pos + length frm) cs)"
    if v0: "rs_valid s0 h0" and c0: "content s0 h0 = cs"
      and e: "rs_string_erase s0 pos (length frm) h0 = (r1, s1, h1)"
      and n: "rs_string_insert s1 pos rep h1 = (r2, s2, h2)"
    for s0 h0 r1 s1 h1 r2 s2 h2
  proof -
    note es = erase_spec [OF v0 e]
    then have v1: "rs_valid s1 h1" by simp
    note ns = insert_spec [OF v1 n]
    have "content s2 h2 = take pos cs @ rep @ drop (pos + length frm) cs" if "never_fails h0"
    proof -
      from that es have "content s1 h1 = take pos cs @ drop (pos + length frm) cs"
        and "never_fails h1" by (auto simp: c0)
      with ns have "content s2 h2 = take pos (take pos cs @ drop (pos + length frm) cs) @ rep @
           drop pos (take pos cs @ drop (pos + length frm) cs)" by auto
      then show ?thesis using pl lcs by simp
    qed
    with es ns show ?thesis by auto
  qed
  show ?thesis
  proof (cases "length frm \<ge> length rep")
    case True
    obtain r1 s1 h1 where e: "rs_string_erase s pos (length frm) h = (r1, s1, h1)"
      by (cases "rs_string_erase s pos (length frm) h") auto
    from res Some True e have n: "rs_string_insert s1 pos rep h1 = (r, s', h')"
      by (simp add: rs_string_replace_first_def)
    from core [OF v _ e n] Some show ?thesis by (auto simp: cs_def)
  next
    case False
    obtain r0 s0 h0 where p: "rs_string_reserve_ex s (rs_len s + (length rep - length frm)) h = (r0, s0, h0)"
      by (cases "rs_string_reserve_ex s (rs_len s + (length rep - length frm)) h") auto
    note ps = reserve_ex_spec [OF v p]
    show ?thesis
    proof (cases "r0 = 0")
      case r0: False
      with res Some False p have "r = - 1" "s' = s0" "h' = h0"
        by (auto simp: rs_string_replace_first_def)
      with ps r0 Some show ?thesis by auto
    next
      case True
      obtain r1 s1 h1 where e: "rs_string_erase s0 pos (length frm) h0 = (r1, s1, h1)"
        by (cases "rs_string_erase s0 pos (length frm) h0") auto
      from res Some False p True e have n: "rs_string_insert s1 pos rep h1 = (r, s', h')"
        by (simp add: rs_string_replace_first_def)
      from ps have v0: "rs_valid s0 h0" and c0: "content s0 h0 = cs" by (auto simp: cs_def)
      from core [OF v0 c0 e n] ps Some show ?thesis by (auto simp: cs_def)
    qed
  qed
qed

lemma vprintf_spec:
  assumes v: "rs_valid s h" and res: "rs_string_vprintf s out h = (r, s', h')"
  shows "rs_valid s' h' \<and>
         (rs_string_is_heap s \<longrightarrow> rs_string_is_heap s') \<and>
         (out = None \<longrightarrow> r = - 1 \<and> s' = s \<and> h' = h) \<and>
         (r < 0 \<longrightarrow> r = - 1 \<and> rs_len s' = rs_len s \<and> content s' h' = content s h) \<and>
         (\<forall>bytes. out = Some bytes \<and> 0 \<le> r \<longrightarrow>
            r = int (length bytes) \<and> rs_len s' = length bytes \<and> content s' h' = bytes) \<and>
         (\<forall>bytes. out = Some bytes \<and> never_fails h \<longrightarrow> 0 \<le> r \<and> never_fails h')"
proof (cases out)
  case None
  with res v show ?thesis by (auto simp: rs_string_vprintf_def)
next
  case (Some bytes)
  obtain r1 s1 h1 where p1: "rs_string_reserve_ex s (length bytes) h = (r1, s1, h1)"
    by (cases "rs_string_reserve_ex s (length bytes) h") auto
  obtain r2 s2 h2 where p2: "rs__ensure_unique s1 h1 = (r2, s2, h2)"
    by (cases "rs__ensure_unique s1 h1") auto
  note p = prepare_spec [OF v p1 p2]
  show ?thesis
  proof (cases "r1 = 0 \<and> r2 = 0")
    case False
    with res p1 p2 Some have "r = - 1" "(s' = s1 \<and> h' = h1) \<or> (s' = s2 \<and> h' = h2)"
      by (auto simp: rs_string_vprintf_def Let_def split: if_splits)
    with p False Some show ?thesis by auto
  next
    case True
    define b where "b = memcpy_at (rs_buf s2 h2) 0 (bytes @ [NUL])"
    obtain s3 h3 where sb: "rs_set_buf s2 h2 b = (s3, h3)"
      by (cases "rs_set_buf s2 h2 b") auto
    from res p1 p2 True sb Some
    have r: "r = int (length bytes)" "s' = s3\<lparr>rs_len := length bytes\<rparr>" "h' = h3"
      by (auto simp: rs_string_vprintf_def b_def Let_def)
    from p True have v2: "rs_valid s2 h2" and le: "length bytes \<le> rs_string_cap s2" by auto
    from le have lb: "length (bytes @ [NUL]) \<le> length (rs_buf s2 h2)"
      using valid_buf_length [OF v2] by simp
    have b: "b = (bytes @ [NUL]) @ drop (length (bytes @ [NUL])) (rs_buf s2 h2)"
      unfolding b_def using memcpy_at_in [of 0 "bytes @ [NUL]" "rs_buf s2 h2"] lb by simp
    have bl: "length b = length (rs_buf s2 h2)" by (simp add: b_def)
    have bt: "b ! length bytes = NUL" by (subst b) (simp add: nth_append)
    have bk: "take (length bytes) b = bytes" by (subst b) simp
    from set_buf_spec [OF v2 bl le bt sb] bk p True r Some show ?thesis by auto
  qed
qed

section \<open>Fixtures and the terminated view\<close>

lemma inline_str_valid:
  "length v \<le> RS_SSO_CAP \<Longrightarrow> rs_valid (inline_str v) h \<and> content (inline_str v) h = v \<and>
     \<not> rs_string_is_heap (inline_str v) \<and> unique (inline_str v) h"
  by (simp add: inline_str_def rs_valid_def content_def rs_buf_def rs_string_is_heap_def
      unique_def nth_append)

lemma heap_str_valid:
  "rs_valid (heap_str 0 v) (heap_one ok rc v) \<and> content (heap_str 0 v) (heap_one ok rc v) = v \<and>
     rs_string_is_heap (heap_str 0 v) \<and>
     (unique (heap_str 0 v) (heap_one ok rc v) \<longleftrightarrow> rc = 1)"
  by (simp add: heap_str_def heap_one_def rs_valid_def content_def rs_buf_def
      rs_string_is_heap_def unique_def nth_append RS_SSO_CAP_def)

lemma never_fails_fixtures:
  "never_fails heap_ok" "never_fails (heap_one (\<lambda>k. True) rc v)"
  by (simp_all add: never_fails_def heap_ok_def heap_one_def)

lemma cstr_content:
  assumes v: "rs_valid s h" and nz: "NUL \<notin> set (content s h)"
  shows "rs_string_cstr s h = content s h"
proof -
  have lt: "rs_len s < length (rs_buf s h)"
    using valid_buf_length [OF v] valid_len_cap [OF v] by simp
  have "rs_buf s h = take (rs_len s) (rs_buf s h) @ drop (rs_len s) (rs_buf s h)"
    by simp
  also from lt have "drop (rs_len s) (rs_buf s h) = rs_buf s h ! rs_len s # drop (Suc (rs_len s)) (rs_buf s h)"
    by (simp add: Cons_nth_drop_Suc)
  finally have b: "rs_buf s h = content s h @ NUL # drop (Suc (rs_len s)) (rs_buf s h)"
    using valid_terminator [OF v] by (simp add: content_def)
  have "takeWhile (\<lambda>c. c \<noteq> NUL) (content s h @ NUL # drop (Suc (rs_len s)) (rs_buf s h)) = content s h"
    using nz by (subst takeWhile_append2) auto
  with b show ?thesis by (simp add: rs_string_cstr_def c_str_def)
qed

text \<open>
  What construction yields. For a text longer than \<open>RS_SSO_CAP\<close> the result is a
  well-formed heap string that owns its block alone and holds the bytes of the
  argument up to its terminator; the heap fixture \<open>heap_str\<close> with \<open>heap_one\<close>
  is what construction from a text of 30 bytes leaves behind. For a shorter text the
  bytes are in the inline buffer of the result, but its \<open>p\<close> is the address of
  the buffer of the local that \<open>rs_string_from_val\<close> has returned: the result is
  not an inline string.
\<close>

lemma c_str_no_NUL: "NUL \<notin> set (c_str bytes)"
  unfolding c_str_def
  by (induction bytes) auto

lemma by_value_heap [simp]: "by_value (s\<lparr>rs_p := Heap a, rs_cap := n, rs_len := m\<rparr>) =
    s\<lparr>rs_p := Heap a, rs_cap := n, rs_len := m\<rparr>"
  by (simp add: by_value_def)

lemma from_val_long:
  assumes sl: "length (rs_sso slot) = RS_SSO_CAP + 1"
    and lg: "RS_SSO_CAP < length (rs_sv_from_cstr c)"
    and res: "rs_string_from_val slot c h = Inr (s, h')"
  shows "rs_valid s h' \<and> content s h' = rs_sv_from_cstr c \<and>
         rs_string_cstr s h' = rs_sv_from_cstr c \<and> unique s h' \<and> rs_string_is_heap s"
proof -
  from lg obtain bytes where c: "c = Some bytes"
    by (cases c) (auto simp: rs_sv_from_cstr_def)
  define v where "v = c_str bytes"
  from lg c have hp: "RS_SSO_CAP < length v"
    by (simp add: v_def rs_sv_from_cstr_def)
  have nz: "NUL \<notin> set v"
    unfolding v_def by (rule c_str_no_NUL)
  from res c hp sl have core: "rs_valid s h' \<and> content s h' = v \<and> unique s h' \<and> rs_string_is_heap s"
    unfolding v_def
    by (auto simp: rs_string_from_val_def Let_def rs__sys_malloc_def set_hdr_def
        rs_valid_def content_def unique_def rs_string_is_heap_def rs_buf_def
        rs_string_init_def memcpy_at_in nth_append
        split: if_splits)
  with nz cstr_content [of s h'] have "rs_string_cstr s h' = v" by simp
  with core c show ?thesis
    by (simp add: v_def rs_sv_from_cstr_def)
qed

lemma from_val_short:
  assumes sl: "length (rs_sso slot) = RS_SSO_CAP + 1"
    and sh: "length (rs_sv_from_cstr c) \<le> RS_SSO_CAP"
  shows "\<exists>s. rs_string_from_val slot c h = Inr (s, h) \<and> rs_p s = Stale \<and>
             rs_string_is_heap s \<and> \<not> rs_valid s h \<and>
             rs_len s = length (rs_sv_from_cstr c) \<and> rs_cap s = RS_SSO_CAP \<and>
             take (rs_len s + 1) (rs_sso s) = rs_sv_from_cstr c @ [NUL]"
proof -
  define v where "v = rs_sv_from_cstr c"
  define b where "b = rs_sso (rs_string_init slot)"
  have l: "length b = RS_SSO_CAP + 1"
    using sl by (simp add: b_def rs_string_init_def)
  have i: "rs_p (rs_string_init slot) = Sso" "rs_len (rs_string_init slot) = 0"
    "rs_cap (rs_string_init slot) = RS_SSO_CAP"
    by (simp_all add: rs_string_init_def)
  have z: "take 1 b = [NUL]"
    using sl unfolding b_def by (cases "rs_sso slot") (simp_all add: rs_string_init_def)
  have m: "take (length v + 1) (memcpy_at b 0 (v @ [NUL])) = v @ [NUL]"
    using sh l by (simp add: memcpy_at_in v_def)
  show ?thesis
  proof (cases "v = []")
    case True
    then have "rs_string_from_val slot c h = Inr (by_value (rs_string_init slot), h)"
      unfolding v_def
      by (cases c) (simp_all add: rs_string_from_val_def rs_sv_from_cstr_def Let_def)
    with True i z show ?thesis
      unfolding v_def [symmetric] b_def [symmetric]
      by (simp add: by_value_def rs_string_is_heap_def rs_valid_def b_def [symmetric])
  next
    case False
    then obtain bytes where c: "c = Some bytes" and v: "c_str bytes = v"
      unfolding v_def by (cases c) (auto simp: rs_sv_from_cstr_def)
    from sh have sh': "length v \<le> RS_SSO_CAP"
      by (simp add: v_def)
    from False sh' have "rs_string_from_val slot (Some bytes) h =
        Inr (by_value ((rs_string_init slot)\<lparr>rs_sso := memcpy_at b 0 (v @ [NUL]),
                                             rs_len := length v\<rparr>), h)"
      unfolding b_def
      by (simp add: rs_string_from_val_def Let_def v)
    then have "rs_string_from_val slot c h =
        Inr (by_value ((rs_string_init slot)\<lparr>rs_sso := memcpy_at b 0 (v @ [NUL]),
                                             rs_len := length v\<rparr>), h)"
      unfolding c .
    with i m show ?thesis
      unfolding v_def [symmetric]
      by (simp add: by_value_def rs_string_is_heap_def rs_valid_def)
  qed
qed

lemma from_val_fixture:
  "rs_string_from_val garbage_slot (Some (replicate 30 (CHR ''x'') @ [NUL])) heap_ok =
     Inr (heap_str 0 (replicate 30 (CHR ''x'')),
          (heap_one (\<lambda>k. True) 1 (replicate 30 (CHR ''x'')))\<lparr>ticks := 1\<rparr>)"
proof -
  define v where "v = replicate 30 (CHR ''x'')"
  have lv: "length v = 30" by (simp add: v_def)
  have c: "c_str (v @ [NUL]) = v"
    unfolding c_str_def v_def by (subst takeWhile_append2) (auto simp: NUL_def)
  have g: "rs_string_init garbage_slot =
      \<lparr>rs_len = 0, rs_off = 0, rs_p = Sso, rs_cap = RS_SSO_CAP,
       rs_sso = NUL # replicate RS_SSO_CAP (CHR ''#'')\<rparr>"
    by (simp add: rs_string_init_def garbage_slot_def RS_SSO_CAP_def numeral_eq_Suc)
  have m: "rs__sys_malloc (length v + 1) heap_ok =
      (Some 0, \<lparr>blocks = (\<lambda>a. None)(0 \<mapsto>
                   \<lparr>hdr_cap = 0, hdr_rc = 0, hdr_data = replicate (length v + 1) (CHR ''?'')\<rparr>),
                brk = 1, may_alloc = (\<lambda>k. True), ticks = 1, junk = CHR ''?''\<rparr>)"
    by (simp add: rs__sys_malloc_def heap_ok_def)
  have d: "memcpy_at (CHR ''?'' # replicate (length v) (CHR ''?'')) 0 (v @ [NUL]) = v @ [NUL]"
    by (simp add: memcpy_at_def)
  have ne: "length v \<noteq> 0" "\<not> length v \<le> RS_SSO_CAP"
    by (simp_all add: lv RS_SSO_CAP_def)
  have "rs_string_from_val garbage_slot (Some (v @ [NUL])) heap_ok =
      Inr (heap_str 0 v, (heap_one (\<lambda>k. True) 1 v)\<lparr>ticks := 1\<rparr>)"
    unfolding rs_string_from_val_def c Let_def option.case if_not_P [OF ne(1)]
      if_not_P [OF ne(2)] m
    by (simp add: g d set_hdr_def heap_str_def heap_one_def by_value_def)
  then show ?thesis
    unfolding v_def .
qed

section \<open>Construction\<close>

text \<open>
  Claim C10 at concrete inputs. \<open>rs_string_from_val\<close> of a null pointer and of an
  empty text allocates nothing and returns length 0, capacity \<open>RS_SSO_CAP\<close> and the
  terminator at index 0 of the inline buffer, but not an inline string: the local is
  initialised in place, where \<open>rs_string_init\<close> leaves \<open>p\<close> at the local's own
  buffer, and is then returned by value, so the \<open>p\<close> of the result still holds the
  address of the buffer of the local, which is gone. \<open>rs_string_is_heap\<close> is true of
  the result. \<open>rs_string_from_cstr\<close> stores the same struct. Initialising a struct
  in place with \<open>rs_string_init\<close> does give the empty inline string.
\<close>

theorem from_val_empty_not_inline:
  "rs_string_from_val garbage_slot None heap_ok =
     Inr (by_value (rs_string_init garbage_slot), heap_ok) \<and>
   rs_string_from_val garbage_slot (Some [NUL]) heap_ok =
     Inr (by_value (rs_string_init garbage_slot), heap_ok) \<and>
   rs_string_from_cstr (inline_str ''old'') garbage_slot (Some [NUL]) heap_ok =
     Inr (0, by_value (rs_string_init garbage_slot), heap_ok) \<and>
   rs_len (by_value (rs_string_init garbage_slot)) = 0 \<and>
   rs_cap (by_value (rs_string_init garbage_slot)) = RS_SSO_CAP \<and>
   rs_sso (by_value (rs_string_init garbage_slot)) ! 0 = NUL \<and>
   rs_p (by_value (rs_string_init garbage_slot)) = Stale \<and>
   rs_string_is_heap (by_value (rs_string_init garbage_slot)) \<and>
   \<not> rs_valid (by_value (rs_string_init garbage_slot)) heap_ok \<and>
   rs_p (rs_string_init garbage_slot) = Sso \<and>
   \<not> rs_string_is_heap (rs_string_init garbage_slot) \<and>
   rs_valid (rs_string_init garbage_slot) heap_ok"
  by (simp add: rs_string_from_val_def rs_string_from_cstr_def c_str_def by_value_def
      rs_string_init_def garbage_slot_def rs_string_is_heap_def rs_valid_def RS_SSO_CAP_def
      NUL_def)


section \<open>Replace all\<close>

lemma replace_all_total:
  assumes v: "rs_valid s h" and nf: "never_fails h" and ne: "frm \<noteq> []"
  shows "\<exists>s' h'. rs_string_replace_all s frm rep h =
                     Some (int (replace_count_spec frm (content s h)), s', h') \<and>
                   rs_valid s' h' \<and> never_fails h' \<and>
                   content s' h' = replace_all_spec frm rep (content s h)"
  using replace_all_loop_total [OF ne v nf, of 0 rep 0] ne
  by (auto simp: rs_string_replace_all_def)

text \<open>
  Claim C4. With an empty \<open>from\<close>, \<open>replace_all\<close> returns 0 and leaves the string
  and the heap as they are. With a non-empty \<open>from\<close>, on a well-formed string and
  while no allocation fails, it returns, the new content is \<open>replace_all_spec\<close> of
  the old one (occurrences replaced left to right, the search resuming after the text
  just inserted, which is therefore never matched again), and the result is the number
  of replacements. On \<open>one fish two fish\<close> with \<open>fish\<close> to \<open>cat\<close> it
  yields \<open>one cat two cat\<close> and returns 2.
\<close>

theorem replace_all_correct:
  "rs_string_replace_all s [] rep h = Some (0, s, h) \<and>
   (rs_valid s h \<and> never_fails h \<and> frm \<noteq> [] \<longrightarrow>
      (\<exists>s' h'. rs_string_replace_all s frm rep h =
                  Some (int (replace_count_spec frm (content s h)), s', h') \<and>
                rs_valid s' h' \<and>
                content s' h' = replace_all_spec frm rep (content s h))) \<and>
   (rs_valid s h \<and> never_fails h \<and> content s h = ''one fish two fish'' \<longrightarrow>
      (\<exists>s' h'. rs_string_replace_all s ''fish'' ''cat'' h = Some (2, s', h') \<and>
                content s' h' = ''one cat two cat'' \<and>
                rs_string_cstr s' h' = ''one cat two cat''))"
proof (intro conjI impI)
  show "rs_string_replace_all s [] rep h = Some (0, s, h)"
    by (simp add: rs_string_replace_all_def)
next
  assume a: "rs_valid s h \<and> never_fails h \<and> frm \<noteq> []"
  then have v: "rs_valid s h" and nf: "never_fails h" and ne: "frm \<noteq> []"
    by simp_all
  from replace_all_total [OF v nf ne, of rep]
  show "\<exists>s' h'. rs_string_replace_all s frm rep h =
                   Some (int (replace_count_spec frm (content s h)), s', h') \<and>
                 rs_valid s' h' \<and> content s' h' = replace_all_spec frm rep (content s h)"
    by blast
next
  assume a: "rs_valid s h \<and> never_fails h \<and> content s h = ''one fish two fish''"
  then have v: "rs_valid s h" and nf: "never_fails h"
    and c: "content s h = ''one fish two fish''"
    by simp_all
  have e1: "replace_all_spec ''fish'' ''cat'' ''one fish two fish'' = ''one cat two cat''"
    by (simp add: replace_all_spec.simps)
  have e2: "replace_count_spec ''fish'' ''one fish two fish'' = 2"
    by (simp add: replace_count_spec.simps)
  from replace_all_total [OF v nf, of "''fish''" "''cat''"] obtain s' h' where
    r: "rs_string_replace_all s ''fish'' ''cat'' h = Some (2, s', h')"
    and v': "rs_valid s' h'" and c': "content s' h' = ''one cat two cat''"
    unfolding c e1 e2 by auto
  have "NUL \<notin> set (content s' h')"
    unfolding c' by (simp add: NUL_def)
  from cstr_content [OF v' this] r c'
  show "\<exists>s' h'. rs_string_replace_all s ''fish'' ''cat'' h = Some (2, s', h') \<and>
                 content s' h' = ''one cat two cat'' \<and>
                 rs_string_cstr s' h' = ''one cat two cat''"
    by simp
qed

theorem replace_all_correct_witness:
  "rs_valid (inline_str ''one fish two fish'') heap_ok \<and> never_fails heap_ok \<and>
   ''fish'' \<noteq> [] \<and>
   content (inline_str ''one fish two fish'') heap_ok = ''one fish two fish'' \<and>
   rs_string_replace_all (inline_str ''one fish two fish'') [] ''cat'' heap_ok =
     Some (0, inline_str ''one fish two fish'', heap_ok) \<and>
   (\<exists>s' h'. rs_string_replace_all (inline_str ''one fish two fish'') ''fish'' ''cat'' heap_ok =
               Some (2, s', h') \<and>
             content s' h' = ''one cat two cat'' \<and> rs_string_cstr s' h' = ''one cat two cat'') \<and>
   (\<exists>s' h'. rs_string_replace_all (inline_str ''one fish two fish'') ''fish'' ''fishfish'' heap_ok =
               Some (2, s', h') \<and>
             content s' h' = ''one fishfish two fishfish'')"
proof -
  have i: "rs_valid (inline_str ''one fish two fish'') heap_ok"
    "content (inline_str ''one fish two fish'') heap_ok = ''one fish two fish''"
    using inline_str_valid [of "''one fish two fish''" heap_ok] by (simp_all add: RS_SSO_CAP_def)
  note nf = never_fails_fixtures(1)
  have e1: "replace_all_spec ''fish'' ''fishfish'' ''one fish two fish'' = ''one fishfish two fishfish''"
    by (simp add: replace_all_spec.simps)
  have e2: "replace_count_spec ''fish'' ''one fish two fish'' = 2"
    by (simp add: replace_count_spec.simps)
  from replace_all_correct [where s = "inline_str ''one fish two fish''" and h = heap_ok
      and rep = "''cat''" and frm = "''fish''"]
    replace_all_correct [where s = "inline_str ''one fish two fish''" and h = heap_ok
      and rep = "''fishfish''" and frm = "''fish''"]
  show ?thesis
    unfolding i(2) e1 e2 using i nf by auto
qed

lemma replace_all_round:
  assumes v: "rs_valid s h" and ok: "never_fails h \<or> unique s h" and ne: "frm \<noteq> []"
    and f: "rs_string_find s frm i h = Some pos"
    and e: "rs_string_erase s pos (length frm) h = (r1, s1, h1)"
    and n: "rs_string_insert s1 pos rep h1 = (r2, s2, h2)"
  shows "r1 = 0 \<and> rs_valid s2 h2 \<and> (never_fails h2 \<or> unique s2 h2) \<and>
         rs_len s2 - (pos + length rep) + length frm \<le> rs_len s - i \<and>
         rs_len s2 - (pos + length rep) < rs_len s - i"
proof -
  from find_Some [OF v ne f] have ip: "i \<le> pos" and pl: "pos + length frm \<le> rs_len s"
    by auto
  note es = erase_spec [OF v e]
  from es ok have r1: "r1 = 0" by blast
  from es have v1: "rs_valid s1 h1" by blast
  from es ok have ok1: "never_fails h1 \<or> unique s1 h1" by blast
  from es r1 have "rs_len s1 = rs_len s - min (length frm) (rs_len s - pos)" by blast
  with pl have l1: "rs_len s1 = rs_len s - length frm" by (simp add: min_def)
  note ns = insert_spec [OF v1 n]
  from ns have v2: "rs_valid s2 h2" by blast
  from ns ok1 have ok2: "never_fails h2 \<or> unique s2 h2" by blast
  from ns have l2: "rs_len s2 = rs_len s1 + length rep \<or> rs_len s2 = rs_len s1"
    by (cases "r2 = 0") blast+
  have fl: "0 < length frm" using ne by simp
  have "rs_len s2 - (pos + length rep) + length frm \<le> rs_len s - i"
    "rs_len s2 - (pos + length rep) < rs_len s - i"
    using l1 l2 ip pl fl by arith+
  with r1 v2 ok2 show ?thesis by simp
qed

lemma replace_all_loop_returns:
  assumes ne: "frm \<noteq> []"
  shows "rs_valid s h \<Longrightarrow> never_fails h \<or> unique s h \<Longrightarrow>
     \<exists>y. replace_all_loop s frm rep i c h = Some y"
proof (induction "rs_len s - i" arbitrary: s i c h rule: less_induct)
  case less
  note v = less.prems(1) and ok = less.prems(2)
  show ?case
  proof (cases "rs_string_find s frm i h")
    case None
    then show ?thesis
      by (subst replace_all_loop.simps) simp
  next
    case (Some pos)
    obtain r1 s1 h1 where e: "rs_string_erase s pos (length frm) h = (r1, s1, h1)"
      by (cases "rs_string_erase s pos (length frm) h") auto
    obtain r2 s2 h2 where n: "rs_string_insert s1 pos rep h1 = (r2, s2, h2)"
      by (cases "rs_string_insert s1 pos rep h1") auto
    note r = replace_all_round [OF v ok ne Some e n]
    have l: "replace_all_loop s frm rep i c h =
             replace_all_loop s2 frm rep (pos + length rep) (c + 1) h2"
      by (subst replace_all_loop.simps) (simp add: Some e n)
    from r have "rs_len s2 - (pos + length rep) < rs_len s - i"
      and "rs_valid s2 h2" and "never_fails h2 \<or> unique s2 h2"
      by simp_all
    from less.hyps [OF this, of "c + 1"] l show ?thesis by simp
  qed
qed

text \<open>
  Where the loop does terminate. On a well-formed string, for a non-empty \<open>from\<close>
  and any \<open>to\<close>, \<open>replace_all\<close> returns, and one round of its loop, started at
  any cursor \<open>i\<close> where \<open>find\<close> reports a match, lowers the number of unscanned
  bytes (length minus cursor, 0 once the cursor has passed the end) by at least
  \<open>length from\<close> and leaves a string for which the same holds, provided that
  \<open>rs_string_erase\<close> succeeds: the string is inline or the only owner of its block,
  or no allocation fails. The loop does not look at the result of
  \<open>rs_string_erase\<close>; section \<open>Allocation failure\<close> has the remaining case.
\<close>

lemma replace_all_terminates:
  assumes v: "rs_valid s h" and ok: "never_fails h \<or> unique s h" and ne: "frm \<noteq> []"
  shows "(\<exists>y. rs_string_replace_all s frm rep h = Some y) \<and>
         (\<forall>i pos. rs_string_find s frm i h = Some pos \<longrightarrow>
            (case rs_string_erase s pos (length frm) h of
               (r1, s1, h1) \<Rightarrow>
                 (case rs_string_insert s1 pos rep h1 of
                    (r2, s2, h2) \<Rightarrow>
                      rs_valid s2 h2 \<and> (never_fails h2 \<or> unique s2 h2) \<and>
                      rs_len s2 - (pos + length rep) + length frm \<le> rs_len s - i \<and>
                      rs_len s2 - (pos + length rep) < rs_len s - i)))"
proof (intro conjI allI impI)
  from replace_all_loop_returns [OF ne v ok, of rep 0 0] ne
  show "\<exists>y. rs_string_replace_all s frm rep h = Some y"
    by (simp add: rs_string_replace_all_def)
next
  fix i pos
  assume f: "rs_string_find s frm i h = Some pos"
  obtain r1 s1 h1 where e: "rs_string_erase s pos (length frm) h = (r1, s1, h1)"
    by (cases "rs_string_erase s pos (length frm) h") auto
  obtain r2 s2 h2 where n: "rs_string_insert s1 pos rep h1 = (r2, s2, h2)"
    by (cases "rs_string_insert s1 pos rep h1") auto
  from replace_all_round [OF v ok ne f e n]
  show "case rs_string_erase s pos (length frm) h of
               (r1, s1, h1) \<Rightarrow>
                 (case rs_string_insert s1 pos rep h1 of
                    (r2, s2, h2) \<Rightarrow>
                      rs_valid s2 h2 \<and> (never_fails h2 \<or> unique s2 h2) \<and>
                      rs_len s2 - (pos + length rep) + length frm \<le> rs_len s - i \<and>
                      rs_len s2 - (pos + length rep) < rs_len s - i)"
    by (simp add: e n)
qed

lemma replace_all_terminates_example:
  "rs_valid (inline_str ''aXbXc'') heap_oom \<and> unique (inline_str ''aXbXc'') heap_oom \<and>
   ''X'' \<noteq> [] \<and>
   (\<exists>y. rs_string_replace_all (inline_str ''aXbXc'') ''X'' [] heap_oom = Some y) \<and>
   rs_string_find (inline_str ''aXbXc'') ''X'' 0 heap_oom = Some 1 \<and>
   (case rs_string_erase (inline_str ''aXbXc'') 1 (length ''X'') heap_oom of
      (r1, s1, h1) \<Rightarrow>
        (case rs_string_insert s1 1 [] h1 of
           (r2, s2, h2) \<Rightarrow>
             rs_len s2 - (1 + length ([] :: char list)) + length ''X''
               \<le> rs_len (inline_str ''aXbXc'') - 0))"
proof -
  have i: "rs_valid (inline_str ''aXbXc'') heap_oom" "unique (inline_str ''aXbXc'') heap_oom"
    using inline_str_valid [of "''aXbXc''" heap_oom] by (simp_all add: RS_SSO_CAP_def)
  have ne: "''X'' \<noteq> []" by simp
  have fe: "rs_string_find (inline_str ''aXbXc'') ''X'' 0 heap_oom = Some 1"
    by (simp add: rs_string_find_def inline_str_def rs_buf_def memcmp_scan.simps)
  note t = replace_all_terminates [OF i(1) disjI2 [OF i(2)] ne, of "[]"]
  from t have a: "\<exists>y. rs_string_replace_all (inline_str ''aXbXc'') ''X'' [] heap_oom = Some y"
    by (rule conjunct1)
  from t [THEN conjunct2, rule_format, OF fe]
  have "case rs_string_erase (inline_str ''aXbXc'') 1 (length ''X'') heap_oom of
      (r1, s1, h1) \<Rightarrow>
        (case rs_string_insert s1 1 [] h1 of
           (r2, s2, h2) \<Rightarrow>
             rs_valid s2 h2 \<and> (never_fails h2 \<or> unique s2 h2) \<and>
             rs_len s2 - (1 + length ([] :: char list)) + length ''X''
               \<le> rs_len (inline_str ''aXbXc'') - 0 \<and>
             rs_len s2 - (1 + length ([] :: char list)) < rs_len (inline_str ''aXbXc'') - 0)" .
  then have "case rs_string_erase (inline_str ''aXbXc'') 1 (length ''X'') heap_oom of
      (r1, s1, h1) \<Rightarrow>
        (case rs_string_insert s1 1 [] h1 of
           (r2, s2, h2) \<Rightarrow>
             rs_len s2 - (1 + length ([] :: char list)) + length ''X''
               \<le> rs_len (inline_str ''aXbXc'') - 0)"
    by (auto split: prod.splits)
  with i a fe ne show ?thesis by (intro conjI)
qed

section \<open>Reserve\<close>



lemma reserve_keeps_heap:
  assumes v: "rs_valid s h" and hp: "rs_string_is_heap s"
  shows "rs_string_is_heap (fst (snd (rs_string_reserve s need h)))"
proof -
  obtain r1 s1 h1 where eu: "rs__ensure_unique s h = (r1, s1, h1)"
    by (cases "rs__ensure_unique s h") auto
  from ensure_unique_spec [OF v eu] hp have "rs_valid s1 h1" "rs_string_is_heap s1"
    by simp_all
  then obtain a where "rs_p s1 = Heap a"
    by (cases "rs_p s1") (auto simp: rs_string_is_heap_def rs_valid_def)
  with hp \<open>rs_string_is_heap s1\<close> show ?thesis
    by (auto simp: rs_string_reserve_def Let_def eu rs_string_is_heap_def
        split: prod.splits option.splits)
qed




section \<open>Representation\<close>

lemma triple_eta: "x = (fst x, fst (snd x), snd (snd x))"
  by simp

text \<open>
  Claim C7. A well-formed string in heap representation is still in heap representation
  after each of the mutating, trimming, replacing and formatting operations, also when
  the operation fails and also when the content shrinks to fit the inline buffer.
  (\<open>rs_string_find\<close> takes the string read-only and returns a position only;
  \<open>replace_all\<close> is covered for every run that returns.) The functions that do
  set \<open>p\<close> back to the inline buffer are \<open>rs_string_init\<close>, the release
  \<open>rs_string_free\<close>, and with it \<open>rs_string_share\<close>, which releases its
  destination first; none of them is among the operations above.
\<close>

theorem heap_stays_heap:
  assumes v: "rs_valid s h" and hp: "rs_string_is_heap s"
  shows "rs_string_is_heap (fst (snd (rs__ensure_unique s h))) \<and>
         rs_string_is_heap (fst (snd (rs_string_reserve_ex s need h))) \<and>
         rs_string_is_heap (fst (snd (rs_string_reserve s need h))) \<and>
         rs_string_is_heap (fst (snd (rs_string_assign s w h))) \<and>
         rs_string_is_heap (fst (snd (rs_string_clear s h))) \<and>
         rs_string_is_heap (fst (snd (rs_string_append s w h))) \<and>
         rs_string_is_heap (fst (snd (rs_string_push_cstr s c h))) \<and>
         rs_string_is_heap (fst (snd (rs_string_push_char s ch h))) \<and>
         rs_string_is_heap (fst (snd (rs_string_insert s pos w h))) \<and>
         rs_string_is_heap (fst (snd (rs_string_erase s pos n h))) \<and>
         rs_string_is_heap (fst (snd (rs_string_trim_left s h))) \<and>
         rs_string_is_heap (fst (snd (rs_string_trim_right s h))) \<and>
         rs_string_is_heap (fst (snd (rs_string_trim s h))) \<and>
         rs_string_is_heap (fst (snd (rs_string_replace_first s frm rep h))) \<and>
         (\<forall>y. rs_string_replace_all s frm rep h = Some y \<longrightarrow> rs_string_is_heap (fst (snd y))) \<and>
         rs_string_is_heap (fst (snd (rs_string_vprintf s out h))) \<and>
         rs_string_is_heap (fst (snd (rs_string_printf s out h)))"
proof -
  have 1: "rs_string_is_heap (fst (snd (rs__ensure_unique s h)))"
    using ensure_unique_spec [OF v triple_eta] hp by simp
  have 2: "rs_string_is_heap (fst (snd (rs_string_reserve_ex s need h)))"
    using reserve_ex_spec [OF v triple_eta] hp by simp
  have 3: "rs_string_is_heap (fst (snd (rs_string_assign s w h)))" for w
    using assign_spec [OF v triple_eta] hp by simp
  have 4: "rs_string_is_heap (fst (snd (rs_string_append s w h)))" for w
    using append_spec [OF v triple_eta] hp by simp
  have 5: "rs_string_is_heap (fst (snd (rs_string_insert s pos w h)))"
    using insert_spec [OF v triple_eta] hp by simp
  have 6: "rs_string_is_heap (fst (snd (rs_string_erase s pos n h)))"
    using erase_spec [OF v triple_eta] hp by simp
  have 7: "rs_string_is_heap (fst (snd (rs_string_trim_left s h)))"
    using trim_left_spec [OF v triple_eta] hp by simp
  have 8: "rs_string_is_heap (fst (snd (rs_string_trim_right s h)))"
    and v8: "rs_valid (fst (snd (rs_string_trim_right s h))) (snd (snd (rs_string_trim_right s h)))"
    using trim_right_spec [OF v triple_eta] hp by simp_all
  have 9: "rs_string_is_heap (fst (snd (rs_string_trim s h)))"
    using trim_left_spec [OF v8 triple_eta] 8
    by (simp add: rs_string_trim_def split_beta)
  have 10: "rs_string_is_heap (fst (snd (rs_string_replace_first s frm rep h)))"
    using replace_first_spec [OF v triple_eta] hp by simp
  have 11: "rs_string_is_heap (fst (snd y))" if "rs_string_replace_all s frm rep h = Some y" for y
  proof (cases "frm = []")
    case True
    with that hp show ?thesis by (auto simp: rs_string_replace_all_def)
  next
    case False
    with that have "replace_all_loop s frm rep 0 0 h = Some y"
      by (simp add: rs_string_replace_all_def)
    from replace_all_loop_partial [OF this v] hp show ?thesis by simp
  qed
  have 12: "rs_string_is_heap (fst (snd (rs_string_vprintf s out h)))"
    using vprintf_spec [OF v triple_eta] hp by simp
  note 13 = reserve_keeps_heap [OF v hp]
  from 1 2 3 4 5 6 7 8 9 10 11 12 13 show ?thesis
    by (simp add: rs_string_clear_def rs_string_push_cstr_def
        rs_string_push_char_def rs_string_printf_def)
qed

theorem heap_stays_heap_witness:
  "rs_valid (heap_str 0 (replicate 30 (CHR ''x''))) (heap_one (\<lambda>k. True) 1 (replicate 30 (CHR ''x''))) \<and>
   rs_string_is_heap (heap_str 0 (replicate 30 (CHR ''x''))) \<and>
   (case rs_string_erase (heap_str 0 (replicate 30 (CHR ''x''))) 2 28
           (heap_one (\<lambda>k. True) 1 (replicate 30 (CHR ''x''))) of
      (r, s', h') \<Rightarrow> r = 0 \<and> rs_len s' = 2 \<and> rs_len s' \<le> RS_SSO_CAP \<and> rs_string_is_heap s') \<and>
   (case rs_string_assign (heap_str 0 (replicate 30 (CHR ''x''))) ''hi''
           (heap_one (\<lambda>k. True) 1 (replicate 30 (CHR ''x''))) of
      (r, s', h') \<Rightarrow> r = 0 \<and> rs_len s' = 2 \<and> rs_len s' \<le> RS_SSO_CAP \<and> rs_string_is_heap s')"
proof -
  define s where "s = heap_str 0 (replicate 30 (CHR ''x''))"
  define h where "h = heap_one (\<lambda>k. True) 1 (replicate 30 (CHR ''x''))"
  have v: "rs_valid s h" and hp: "rs_string_is_heap s" and u: "unique s h"
    and l: "rs_len s = 30"
    using heap_str_valid [of "replicate 30 (CHR ''x'')" "\<lambda>k. True" 1]
    by (simp_all add: s_def h_def) (simp add: heap_str_def)
  have nf: "never_fails h"
    unfolding h_def by (rule never_fails_fixtures(2))
  obtain r1 s1 h1 where e: "rs_string_erase s 2 28 h = (r1, s1, h1)"
    by (cases "rs_string_erase s 2 28 h") auto
  obtain r2 s2 h2 where a: "rs_string_assign s ''hi'' h = (r2, s2, h2)"
    by (cases "rs_string_assign s ''hi'' h") auto
  from heap_stays_heap [OF v hp, of _ _ _ _ 2 28] e
  have "rs_string_is_heap s1" by simp
  moreover from heap_stays_heap [OF v hp, of _ "''hi''"] a
  have "rs_string_is_heap s2" by simp
  moreover from erase_spec [OF v e] nf l have "r1 = 0" "rs_len s1 = 2" by auto
  moreover from assign_spec [OF v a] nf have "r2 = 0" "rs_len s2 = 2" by auto
  ultimately show ?thesis
    unfolding s_def [symmetric] h_def [symmetric]
    using v hp by (simp add: e a RS_SSO_CAP_def)
qed

section \<open>Trim\<close>

lemma trim_left_noop:
  assumes "rs_valid t g" and "takeWhile is_space_byte (content t g) = []"
  shows "rs_string_trim_left t g = (0, t, g)"
proof -
  have "rs_len t \<le> length (rs_buf t g)"
    using valid_buf_length [OF assms(1)] valid_len_cap [OF assms(1)] by simp
  with trim_left_scan_eq [of 0 "rs_len t" "rs_buf t g"]
  have "trim_left_scan (rs_buf t g) (rs_len t) 0 = length (takeWhile is_space_byte (content t g))"
    by (simp add: content_def)
  with assms(2) show ?thesis by (simp add: rs_string_trim_left_def)
qed

lemma trim_right_noop:
  assumes "rs_valid t g" and "takeWhile is_space_byte (rev (content t g)) = []"
  shows "rs_string_trim_right t g = (0, t, g)"
proof -
  have "rs_len t \<le> length (rs_buf t g)"
    using valid_buf_length [OF assms(1)] valid_len_cap [OF assms(1)] by simp
  from trim_right_scan_eq [OF this] assms(2)
  have "trim_right_scan (rs_buf t g) (rs_len t) = rs_len t"
    by (simp add: content_def)
  then show ?thesis by (simp add: rs_string_trim_right_def)
qed

lemma trimmed_both_ends:
  assumes y_def: "y = dropWhile P (rev (dropWhile P (rev c)))"
  shows "takeWhile P y = [] \<and> takeWhile P (rev y) = []"
proof
  show "takeWhile P y = []"
    by (simp add: y_def takeWhile_dropWhile_Nil)
next
  define d where "d = dropWhile P (rev c)"
  show "takeWhile P (rev y) = []"
  proof (cases "y = []")
    case True
    then show ?thesis by simp
  next
    case False
    have yd: "y = dropWhile P (rev d)"
      by (simp add: y_def d_def)
    then have "rev d = takeWhile P (rev d) @ y"
      by simp
    with False have "last y = last (rev d)"
      by (metis last_appendR)
    moreover from False yd have "d \<noteq> []"
      by auto
    ultimately have "last y = hd d"
      by (simp add: last_rev)
    moreover from \<open>d \<noteq> []\<close> have "\<not> P (hd d)"
      unfolding d_def by (rule hd_dropWhile)
    ultimately have "\<not> P (hd (rev y))"
      using False by (simp add: hd_rev)
    with False show ?thesis
      by (cases "rev y") auto
  qed
qed

text \<open>
  Claim C8. A \<open>trim_left\<close> that succeeds removes exactly the leading bytes with
  unsigned value at most \<open>0x20\<close>, and a second \<open>trim_left\<close> changes nothing;
  likewise \<open>trim_right\<close> at the other end; \<open>trim\<close> is \<open>trim_right\<close> followed
  by \<open>trim_left\<close>, strips both ends when both steps succeed, and is then idempotent
  too. All three succeed when no allocation fails or the string is not shared.
\<close>

theorem trim_idempotent:
  assumes v: "rs_valid s h"
  shows "(\<forall>s1 h1. rs_string_trim_left s h = (0, s1, h1) \<longrightarrow>
            content s1 h1 = dropWhile is_space_byte (content s h) \<and>
            rs_string_trim_left s1 h1 = (0, s1, h1)) \<and>
         (\<forall>s1 h1. rs_string_trim_right s h = (0, s1, h1) \<longrightarrow>
            content s1 h1 = rev (dropWhile is_space_byte (rev (content s h))) \<and>
            rs_string_trim_right s1 h1 = (0, s1, h1)) \<and>
         rs_string_trim s h =
           rs_string_trim_left (fst (snd (rs_string_trim_right s h)))
             (snd (snd (rs_string_trim_right s h))) \<and>
         (\<forall>s1 h1 s2 h2. rs_string_trim_right s h = (0, s1, h1) \<and>
                         rs_string_trim s h = (0, s2, h2) \<longrightarrow>
            content s2 h2 =
              dropWhile is_space_byte (rev (dropWhile is_space_byte (rev (content s h)))) \<and>
            rs_string_trim s2 h2 = (0, s2, h2)) \<and>
         (never_fails h \<or> unique s h \<longrightarrow>
            fst (rs_string_trim_left s h) = 0 \<and> fst (rs_string_trim_right s h) = 0 \<and>
            fst (rs_string_trim s h) = 0)"
proof -
  have A: "\<forall>s1 h1. rs_string_trim_left s h = (0, s1, h1) \<longrightarrow>
            content s1 h1 = dropWhile is_space_byte (content s h) \<and>
            rs_string_trim_left s1 h1 = (0, s1, h1)"
  proof (intro allI impI)
    fix s1 h1
    assume "rs_string_trim_left s h = (0, s1, h1)"
    from trim_left_spec [OF v this]
    show "content s1 h1 = dropWhile is_space_byte (content s h) \<and>
          rs_string_trim_left s1 h1 = (0, s1, h1)"
      by simp
  qed
  have B: "\<forall>s1 h1. rs_string_trim_right s h = (0, s1, h1) \<longrightarrow>
            content s1 h1 = rev (dropWhile is_space_byte (rev (content s h))) \<and>
            rs_string_trim_right s1 h1 = (0, s1, h1)"
  proof (intro allI impI)
    fix s1 h1
    assume "rs_string_trim_right s h = (0, s1, h1)"
    from trim_right_spec [OF v this]
    show "content s1 h1 = rev (dropWhile is_space_byte (rev (content s h))) \<and>
          rs_string_trim_right s1 h1 = (0, s1, h1)"
      by simp
  qed
  have C: "rs_string_trim s h =
           rs_string_trim_left (fst (snd (rs_string_trim_right s h)))
             (snd (snd (rs_string_trim_right s h)))"
    by (simp add: rs_string_trim_def split_beta)
  have D: "\<forall>s1 h1 s2 h2. rs_string_trim_right s h = (0, s1, h1) \<and>
                         rs_string_trim s h = (0, s2, h2) \<longrightarrow>
            content s2 h2 =
              dropWhile is_space_byte (rev (dropWhile is_space_byte (rev (content s h)))) \<and>
            rs_string_trim s2 h2 = (0, s2, h2)"
  proof (intro allI impI)
    fix s1 h1 s2 h2
    assume a: "rs_string_trim_right s h = (0, s1, h1) \<and> rs_string_trim s h = (0, s2, h2)"
    then have tl: "rs_string_trim_left s1 h1 = (0, s2, h2)"
      by (auto simp: rs_string_trim_def)
    from trim_right_spec [OF v a [THEN conjunct1]]
    have v1: "rs_valid s1 h1"
      and c1: "content s1 h1 = rev (dropWhile is_space_byte (rev (content s h)))"
      by simp_all
    from trim_left_spec [OF v1 tl]
    have v2: "rs_valid s2 h2"
      and c2: "content s2 h2 = dropWhile is_space_byte (content s1 h1)"
      by simp_all
    have c: "content s2 h2 =
        dropWhile is_space_byte (rev (dropWhile is_space_byte (rev (content s h))))"
      unfolding c2 c1 ..
    from trimmed_both_ends [OF c]
    have "takeWhile is_space_byte (content s2 h2) = []"
      "takeWhile is_space_byte (rev (content s2 h2)) = []"
      by simp_all
    with trim_left_noop [OF v2] trim_right_noop [OF v2]
    have "rs_string_trim s2 h2 = (0, s2, h2)"
      by (simp add: rs_string_trim_def)
    with c show "content s2 h2 =
        dropWhile is_space_byte (rev (dropWhile is_space_byte (rev (content s h)))) \<and>
        rs_string_trim s2 h2 = (0, s2, h2)"
      by simp
  qed
  have E: "never_fails h \<or> unique s h \<longrightarrow>
            fst (rs_string_trim_left s h) = 0 \<and> fst (rs_string_trim_right s h) = 0 \<and>
            fst (rs_string_trim s h) = 0"
  proof
    assume a: "never_fails h \<or> unique s h"
    obtain r1 s1 h1 where tr: "rs_string_trim_right s h = (r1, s1, h1)"
      by (cases "rs_string_trim_right s h") auto
    obtain r2 s2 h2 where tl: "rs_string_trim_left s1 h1 = (r2, s2, h2)"
      by (cases "rs_string_trim_left s1 h1") auto
    note rs = trim_right_spec [OF v tr]
    then have v1: "rs_valid s1 h1" by simp
    note ls = trim_left_spec [OF v1 tl]
    from rs a have r1: "r1 = 0" and "never_fails h1 \<or> unique s1 h1" by auto
    with ls have "r2 = 0" by auto
    moreover have "fst (rs_string_trim_left s h) = 0"
      using trim_left_spec [OF v triple_eta] a by auto
    ultimately show "fst (rs_string_trim_left s h) = 0 \<and> fst (rs_string_trim_right s h) = 0 \<and>
              fst (rs_string_trim s h) = 0"
      using r1 by (simp add: rs_string_trim_def tr tl)
  qed
  from A B C D E show ?thesis by (intro conjI)
qed

theorem trim_idempotent_witness:
  "rs_valid (inline_str [CHR '' '', CHR 0x09, CHR '' '', CHR ''h'', CHR ''i'', CHR '' '', CHR '' '']) heap_ok \<and>
   (\<exists>s2 h2. rs_string_trim (inline_str [CHR '' '', CHR 0x09, CHR '' '', CHR ''h'', CHR ''i'', CHR '' '', CHR '' '']) heap_ok
               = (0, s2, h2) \<and>
             content s2 h2 = ''hi'' \<and> rs_string_trim s2 h2 = (0, s2, h2))"
proof -
  define s where "s = inline_str [CHR '' '', CHR 0x09, CHR '' '', CHR ''h'', CHR ''i'', CHR '' '', CHR '' '']"
  have v: "rs_valid s heap_ok"
    and c: "content s heap_ok = [CHR '' '', CHR 0x09, CHR '' '', CHR ''h'', CHR ''i'', CHR '' '', CHR '' '']"
    using inline_str_valid [of "[CHR '' '', CHR 0x09, CHR '' '', CHR ''h'', CHR ''i'', CHR '' '', CHR '' '']" heap_ok]
    by (simp_all add: s_def RS_SSO_CAP_def)
  note t = trim_idempotent [OF v]
  obtain r1 s1 h1 where tr: "rs_string_trim_right s heap_ok = (r1, s1, h1)"
    by (cases "rs_string_trim_right s heap_ok") auto
  obtain r2 s2 h2 where tt: "rs_string_trim s heap_ok = (r2, s2, h2)"
    by (cases "rs_string_trim s heap_ok") auto
  from t never_fails_fixtures(1) tr tt have z: "r1 = 0" "r2 = 0" by auto
  from t tr tt z
  have "content s2 h2 =
      dropWhile is_space_byte (rev (dropWhile is_space_byte (rev (content s heap_ok))))"
    and i: "rs_string_trim s2 h2 = (0, s2, h2)"
    by blast+
  then have "content s2 h2 = ''hi''"
    by (simp add: c is_space_byte_def)
  with i tt z v show ?thesis
    unfolding s_def [symmetric] by simp
qed


section \<open>Replace first\<close>

lemma find_eval_cat: "rs_string_find (inline_str ''one cat two cat'') ''cat'' 0 heap_ok = Some 4"
  by (simp add: rs_string_find_def inline_str_def rs_buf_def memcmp_scan.simps)

lemma find_eval_cow: "rs_string_find (inline_str ''one cat two cat'') ''cow'' 0 heap_ok = None"
  by (simp add: rs_string_find_def inline_str_def rs_buf_def memcmp_scan.simps)

text \<open>
  Claim C2, as amended. \<open>replace_first\<close> returns a status code, not a replacement
  flag: it returns 0 and changes nothing when \<open>from\<close> does not occur; it also returns
  0 when the first occurrence has been replaced (no allocation failing); the only other
  value it returns is \<open>-1\<close>.
\<close>

theorem replace_first_status:
  assumes v: "rs_valid s h"
  shows "(rs_string_find s frm 0 h = None \<longrightarrow> rs_string_replace_first s frm rep h = (0, s, h)) \<and>
         (\<forall>pos. rs_string_find s frm 0 h = Some pos \<and> never_fails h \<longrightarrow>
            (\<exists>s' h'. rs_string_replace_first s frm rep h = (0, s', h') \<and>
                      content s' h' =
                        take pos (content s h) @ rep @ drop (pos + length frm) (content s h))) \<and>
         (fst (rs_string_replace_first s frm rep h) = 0 \<or>
          fst (rs_string_replace_first s frm rep h) = - 1)"
proof -
  obtain r s' h' where p: "rs_string_replace_first s frm rep h = (r, s', h')"
    by (cases "rs_string_replace_first s frm rep h") auto
  from replace_first_spec [OF v p] show ?thesis
    by (simp add: p)
qed

theorem replace_first_status_witness:
  "rs_valid (inline_str ''one cat two cat'') heap_ok \<and> never_fails heap_ok \<and>
   rs_string_find (inline_str ''one cat two cat'') ''cow'' 0 heap_ok = None \<and>
   rs_string_replace_first (inline_str ''one cat two cat'') ''cow'' ''dog'' heap_ok =
     (0, inline_str ''one cat two cat'', heap_ok) \<and>
   rs_string_find (inline_str ''one cat two cat'') ''cat'' 0 heap_ok = Some 4 \<and>
   (\<exists>s' h'. rs_string_replace_first (inline_str ''one cat two cat'') ''cat'' ''dog'' heap_ok =
               (0, s', h') \<and> content s' h' = ''one dog two cat'')"
proof -
  have i: "rs_valid (inline_str ''one cat two cat'') heap_ok"
    "content (inline_str ''one cat two cat'') heap_ok = ''one cat two cat''"
    using inline_str_valid [of "''one cat two cat''" heap_ok] by (simp_all add: RS_SSO_CAP_def)
  note nf = never_fails_fixtures(1)
  note t = replace_first_status [OF i(1)]
  from t [of "''cow''" "''dog''"] find_eval_cow
  have a: "rs_string_replace_first (inline_str ''one cat two cat'') ''cow'' ''dog'' heap_ok =
     (0, inline_str ''one cat two cat'', heap_ok)"
    by blast
  from t [of "''cat''" "''dog''", THEN conjunct2, THEN conjunct1, rule_format, of 4]
    find_eval_cat nf
  have "\<exists>s' h'. rs_string_replace_first (inline_str ''one cat two cat'') ''cat'' ''dog'' heap_ok =
               (0, s', h') \<and> content s' h' = ''one dog two cat''"
    by (simp add: i(2))
  with a i(1) nf find_eval_cat find_eval_cow show ?thesis by simp
qed

text \<open>
  Claim C2 as stated fails: on \<open>one cat two cat\<close>, replacing \<open>cat\<close> (present,
  replaced) and replacing \<open>cow\<close> (absent, nothing done) both return 0.
\<close>

theorem replace_first_result_ambiguous:
  "fst (rs_string_replace_first (inline_str ''one cat two cat'') ''cat'' ''dog'' heap_ok) = 0 \<and>
   content (fst (snd (rs_string_replace_first (inline_str ''one cat two cat'') ''cat'' ''dog'' heap_ok)))
           (snd (snd (rs_string_replace_first (inline_str ''one cat two cat'') ''cat'' ''dog'' heap_ok)))
     = ''one dog two cat'' \<and>
   fst (rs_string_replace_first (inline_str ''one cat two cat'') ''cow'' ''dog'' heap_ok) = 0 \<and>
   content (fst (snd (rs_string_replace_first (inline_str ''one cat two cat'') ''cow'' ''dog'' heap_ok)))
           (snd (snd (rs_string_replace_first (inline_str ''one cat two cat'') ''cow'' ''dog'' heap_ok)))
     = ''one cat two cat''"
proof -
  have i: "rs_valid (inline_str ''one cat two cat'') heap_ok"
    "content (inline_str ''one cat two cat'') heap_ok = ''one cat two cat''"
    using inline_str_valid [of "''one cat two cat''" heap_ok] by (simp_all add: RS_SSO_CAP_def)
  note nf = never_fails_fixtures(1)
  obtain r s' h' where p: "rs_string_replace_first (inline_str ''one cat two cat'') ''cat'' ''dog'' heap_ok = (r, s', h')"
    by (cases "rs_string_replace_first (inline_str ''one cat two cat'') ''cat'' ''dog'' heap_ok") auto
  from replace_first_spec [OF i(1) p] find_eval_cat nf
  have a: "r = 0" "content s' h' = ''one dog two cat''"
    by (simp_all add: i(2))
  obtain r2 s2 h2 where q: "rs_string_replace_first (inline_str ''one cat two cat'') ''cow'' ''dog'' heap_ok = (r2, s2, h2)"
    by (cases "rs_string_replace_first (inline_str ''one cat two cat'') ''cow'' ''dog'' heap_ok") auto
  from replace_first_spec [OF i(1) q] find_eval_cow
  have b: "r2 = 0" "s2 = inline_str ''one cat two cat''" "h2 = heap_ok"
    by simp_all
  from a b i(2) show ?thesis
    by (simp add: p q)
qed

section \<open>Split\<close>

lemma tokens_spec_skip:
  assumes "sep \<noteq> []"
  shows "k \<le> length xs \<Longrightarrow> (\<And>j. j < k \<Longrightarrow> take (length sep) (drop j xs) \<noteq> sep) \<Longrightarrow>
     tokens_spec sep acc xs = tokens_spec sep (acc @ take k xs) (drop k xs)"
proof (induction k arbitrary: xs acc)
  case 0
  show ?case by simp
next
  case (Suc k)
  from Suc.prems(1) obtain x xs' where xs: "xs = x # xs'" by (cases xs) auto
  from Suc.prems(2) [of 0] have n0: "take (length sep) xs \<noteq> sep" by simp
  have "\<And>j. j < k \<Longrightarrow> take (length sep) (drop j xs') \<noteq> sep"
    using Suc.prems(2) [of "Suc j" for j] by (simp add: xs)
  with Suc.IH [of xs' "acc @ [x]"] Suc.prems(1) xs
  have "tokens_spec sep (acc @ [x]) xs' = tokens_spec sep (acc @ [x] @ take k xs') (drop k xs')"
    by auto
  moreover have "tokens_spec sep acc xs = tokens_spec sep (acc @ [x]) xs'"
    using n0 by (subst tokens_spec.simps) (simp add: xs)
  ultimately show ?case by (simp add: xs)
qed

lemma tokens_spec_no_match:
  assumes "sep \<noteq> []"
    and "\<And>j. j + length sep \<le> length xs \<Longrightarrow> take (length sep) (drop j xs) \<noteq> sep"
  shows "tokens_spec sep acc xs = [acc @ xs]"
proof -
  have "take (length sep) (drop j xs) \<noteq> sep" for j
  proof (cases "j + length sep \<le> length xs")
    case True
    with assms(2) show ?thesis .
  next
    case False
    with assms(1) have "length (take (length sep) (drop j xs)) < length sep"
      by (cases sep) auto
    then show ?thesis by auto
  qed
  moreover have "tokens_spec sep (acc @ xs) [] = [acc @ xs]"
    using assms(1) by (subst tokens_spec.simps) simp
  ultimately show ?thesis
    using tokens_spec_skip [OF assms(1), of "length xs" xs acc] by simp
qed

lemma tokens_spec_first_match:
  assumes "sep \<noteq> []" and "k + length sep \<le> length xs"
    and "take (length sep) (drop k xs) = sep"
    and "\<And>j. j < k \<Longrightarrow> take (length sep) (drop j xs) \<noteq> sep"
  shows "tokens_spec sep acc xs =
           (acc @ take k xs) # tokens_spec sep [] (drop (k + length sep) xs)"
proof -
  from assms(2) have "k \<le> length xs" by simp
  from tokens_spec_skip [OF assms(1) this, of acc] assms(4)
  have "tokens_spec sep acc xs = tokens_spec sep (acc @ take k xs) (drop k xs)"
    by auto
  also have "\<dots> = (acc @ take k xs) # tokens_spec sep [] (drop (length sep) (drop k xs))"
    using assms(1,3) by (subst tokens_spec.simps) simp
  finally show ?thesis by (simp add: add.commute)
qed

lemma tokens_spec_not_Nil: "tokens_spec sep acc xs \<noteq> []"
  by (induction sep acc xs rule: tokens_spec.induct) (subst tokens_spec.simps, auto split: list.splits)

lemma join_tokens_spec: "sep \<noteq> [] \<Longrightarrow> join sep (tokens_spec sep acc xs) = acc @ xs"
proof (induction sep acc xs rule: tokens_spec.induct)
  case (1 sep acc xs)
  show ?case
  proof (cases "take (length sep) xs = sep")
    case True
    obtain u us where t: "tokens_spec sep [] (drop (length sep) xs) = u # us"
      using tokens_spec_not_Nil [of sep "[]" "drop (length sep) xs"]
      by (cases "tokens_spec sep [] (drop (length sep) xs)") auto
    from "1.IH"(1) "1.prems" True
    have "join sep (tokens_spec sep [] (drop (length sep) xs)) = drop (length sep) xs"
      by simp
    then have "join sep (acc # tokens_spec sep [] (drop (length sep) xs)) =
        acc @ sep @ drop (length sep) xs"
      by (simp add: t)
    also have "sep @ drop (length sep) xs = xs"
      using True by (metis append_take_drop_id)
    finally show ?thesis
      using True "1.prems" by (subst tokens_spec.simps) simp
  next
    case False
    show ?thesis
    proof (cases xs)
      case Nil
      with False show ?thesis by (subst tokens_spec.simps) simp
    next
      case (Cons x xs')
      with "1.IH"(2) False "1.prems" have "join sep (tokens_spec sep (acc @ [x]) xs') = (acc @ [x]) @ xs'"
        by simp
      with False Cons show ?thesis by (subst tokens_spec.simps) simp
    qed
  qed
qed

lemma split_loop_spec:
  "sep \<noteq> [] \<Longrightarrow> i \<le> length s \<Longrightarrow>
     split_loop s sep keep_empty f i ctx =
       fold f (toks keep_empty (tokens_spec sep [] (drop i s))) ctx"
proof (induction s sep keep_empty f i ctx rule: split_loop.induct)
  case (1 s sep keep_empty f i ctx)
  note ne = "1.prems"(1) and il = "1.prems"(2)
  note unf = split_loop.simps [of s sep keep_empty f i ctx]
  show ?case
  proof (cases "memcmp_scan s (length s) sep i")
    case None
    have "take (length sep) (drop j (drop i s)) \<noteq> sep" if "j + length sep \<le> length (drop i s)" for j
    proof -
      from that il have "i + j + length sep \<le> length s" by simp
      from memcmp_scan_None [OF None _ this] show ?thesis by (simp add: add.commute)
    qed
    from tokens_spec_no_match [OF ne this, of "[]"]
    have "tokens_spec sep [] (drop i s) = [drop i s]" by simp
    with None il ne unf show ?thesis
      by (auto simp: toks_def)
  next
    case (Some pos)
    from memcmp_scan_Some [OF Some]
    have ip: "i \<le> pos" and pl: "pos + length sep \<le> length s"
      and mt: "take (length sep) (drop pos s) = sep"
      by auto
    have k1: "pos - i + length sep \<le> length (drop i s)" using ip pl by simp
    have k2: "take (length sep) (drop (pos - i) (drop i s)) = sep" using mt ip by simp
    have k3: "take (length sep) (drop j (drop i s)) \<noteq> sep" if "j < pos - i" for j
      using memcmp_scan_first [OF Some, of "i + j"] that by (simp add: add.commute)
    from tokens_spec_first_match [OF ne k1 k2 k3, of "[]"] ip
    have sp: "tokens_spec sep [] (drop i s) =
        take (pos - i) (drop i s) # tokens_spec sep [] (drop (pos + length sep) s)"
      by (simp add: add.commute add.left_commute)
    define tok where "tok = take (pos - i) (drop i s)"
    define ctx1 where "ctx1 = (if length tok > 0 \<or> keep_empty then f tok ctx else ctx)"
    define i1 where "i1 = pos + length sep"
    have c1: "fold f (toks keep_empty (tok # ts)) ctx = fold f (toks keep_empty ts) ctx1" for ts
      by (simp add: toks_def ctx1_def)
    show ?thesis
    proof (cases "i1 = length s \<and> keep_empty")
      case True
      with Some il ne unf have "split_loop s sep keep_empty f i ctx = f [] ctx1"
        by (simp add: Let_def ctx1_def tok_def i1_def)
      moreover have "tokens_spec sep [] (drop i1 s) = [[]]"
        using True ne by (subst tokens_spec.simps) simp
      ultimately show ?thesis
        using True c1 [of "[[]]"] by (simp add: sp tok_def [symmetric] i1_def [symmetric] toks_def)
    next
      case False
      with Some il ne unf
      have "split_loop s sep keep_empty f i ctx = split_loop s sep keep_empty f i1 ctx1"
        by (auto simp: Let_def ctx1_def tok_def i1_def)
      also have "\<dots> = fold f (toks keep_empty (tokens_spec sep [] (drop i1 s))) ctx1"
        using "1.IH" [OF _ Some tok_def ctx1_def i1_def False] il ne pl
        by (simp add: i1_def)
      finally show ?thesis
        using c1 by (simp add: sp tok_def [symmetric] i1_def [symmetric])
    qed
  qed
qed

lemma fold_cb_collect: "fold cb_collect ts acc = acc @ ts"
  by (induction ts arbitrary: acc) (simp_all add: cb_collect_def)

lemma rs_sv_split_spec:
  "rs_sv_split s sep keep_empty (Some f) ctx = fold f (split_spec sep keep_empty s) ctx"
proof (cases "sep = []")
  case True
  then show ?thesis by (simp add: rs_sv_split_def split_spec_def)
next
  case False
  from split_loop_spec [OF False, of 0 s keep_empty f ctx] False show ?thesis
    by (simp add: rs_sv_split_def split_spec_def toks_def)
qed

text \<open>
  Claim C5. For every callback, \<open>rs_sv_split\<close> calls it on the tokens of
  \<open>split_spec\<close>, in order from the left (and does nothing with a null callback).
  With an empty separator that is the whole input once, exactly when the input is
  non-empty or \<open>keep_empty\<close> is set. With a non-empty separator and \<open>keep_empty\<close>
  the tokens joined by the separator give back the input, so a separator at the very
  end is followed by an empty last token; without \<open>keep_empty\<close> the same tokens are
  delivered except the empty ones. Splitting \<open>a,,b,\<close> on \<open>,\<close> gives
  \<open>a\<close>, empty, \<open>b\<close>, empty (4 calls), respectively \<open>a\<close>, \<open>b\<close>.
\<close>

theorem split_visits_tokens:
  "rs_sv_split s sep keep_empty (Some f) ctx = fold f (split_spec sep keep_empty s) ctx \<and>
   rs_sv_split s sep keep_empty None ctx = ctx \<and>
   rs_sv_split s [] keep_empty (Some cb_collect) [] = (if s \<noteq> [] \<or> keep_empty then [s] else []) \<and>
   (sep \<noteq> [] \<longrightarrow>
      join sep (rs_sv_split s sep True (Some cb_collect) []) = s \<and>
      rs_sv_split s sep False (Some cb_collect) [] =
        filter (\<lambda>t. t \<noteq> []) (rs_sv_split s sep True (Some cb_collect) [])) \<and>
   (\<forall>t \<in> set (rs_sv_split s sep False (Some cb_collect) []). t \<noteq> []) \<and>
   rs_sv_split ''a,,b,'' '','' True (Some cb_collect) [] = [''a'', [], ''b'', []] \<and>
   rs_sv_split ''a,,b,'' '','' False (Some cb_collect) [] = [''a'', ''b''] \<and>
   rs_sv_split ''a,,b,'' '','' True (Some cb_count) 0 = 4"
proof -
  have c: "rs_sv_split s sep keep_empty (Some cb_collect) [] = split_spec sep keep_empty s"
    for s sep keep_empty
    by (simp add: rs_sv_split_spec fold_cb_collect)
  have A: "rs_sv_split s sep keep_empty None ctx = ctx"
    by (simp add: rs_sv_split_def)
  have B: "rs_sv_split s [] keep_empty (Some cb_collect) [] = (if s \<noteq> [] \<or> keep_empty then [s] else [])"
    by (simp add: c split_spec_def)
  have C: "sep \<noteq> [] \<longrightarrow>
      join sep (rs_sv_split s sep True (Some cb_collect) []) = s \<and>
      rs_sv_split s sep False (Some cb_collect) [] =
        filter (\<lambda>t. t \<noteq> []) (rs_sv_split s sep True (Some cb_collect) [])"
    using join_tokens_spec [of sep "[]" s] by (simp add: c split_spec_def)
  have D: "\<forall>t \<in> set (rs_sv_split s sep False (Some cb_collect) []). t \<noteq> []"
    by (simp add: c split_spec_def)
  have e: "tokens_spec '','' [] ''a,,b,'' = [''a'', [], ''b'', []]"
    by (simp add: tokens_spec.simps)
  have E: "rs_sv_split ''a,,b,'' '','' True (Some cb_collect) [] = [''a'', [], ''b'', []]"
    "rs_sv_split ''a,,b,'' '','' False (Some cb_collect) [] = [''a'', ''b'']"
    by (simp_all add: c split_spec_def e)
  have F: "rs_sv_split ''a,,b,'' '','' True (Some cb_count) 0 = 4"
    by (simp add: rs_sv_split_spec split_spec_def e cb_count_def)
  from rs_sv_split_spec A B C D E F show ?thesis by (intro conjI)
qed

theorem split_visits_tokens_witness:
  "''--'' \<noteq> [] \<and>
   rs_sv_split ''x--y----'' ''--'' True (Some cb_collect) [] = [''x'', ''y'', [], []] \<and>
   join ''--'' (rs_sv_split ''x--y----'' ''--'' True (Some cb_collect) []) = ''x--y----'' \<and>
   rs_sv_split ''x--y----'' ''--'' False (Some cb_collect) [] = [''x'', ''y''] \<and>
   set (rs_sv_split ''x--y----'' ''--'' False (Some cb_collect) []) = {''x'', ''y''}"
proof -
  have e: "tokens_spec ''--'' [] ''x--y----'' = [''x'', ''y'', [], []]"
    by (simp add: tokens_spec.simps)
  have f: "fold cb_collect ts [] = ts" for ts
    by (simp add: fold_cb_collect)
  note t = split_visits_tokens [of "''x--y----''" "''--''" True cb_collect "[]"]
  have s: "split_spec ''--'' True ''x--y----'' = [''x'', ''y'', [], []]"
    by (simp add: split_spec_def e)
  from t have "rs_sv_split ''x--y----'' ''--'' True (Some cb_collect) [] =
      fold cb_collect (split_spec ''--'' True ''x--y----'') []"
    by (rule conjunct1)
  then have a: "rs_sv_split ''x--y----'' ''--'' True (Some cb_collect) [] = [''x'', ''y'', [], []]"
    by (simp only: f s)
  have ne: "''--'' \<noteq> []" by simp
  from t have "''--'' \<noteq> [] \<longrightarrow>
      join ''--'' (rs_sv_split ''x--y----'' ''--'' True (Some cb_collect) []) = ''x--y----'' \<and>
      rs_sv_split ''x--y----'' ''--'' False (Some cb_collect) [] =
        filter (\<lambda>t. t \<noteq> []) (rs_sv_split ''x--y----'' ''--'' True (Some cb_collect) [])"
    by (elim conjE)
  with ne have b: "join ''--'' (rs_sv_split ''x--y----'' ''--'' True (Some cb_collect) []) = ''x--y----''"
    and c: "rs_sv_split ''x--y----'' ''--'' False (Some cb_collect) [] =
        filter (\<lambda>t. t \<noteq> []) (rs_sv_split ''x--y----'' ''--'' True (Some cb_collect) [])"
    by blast+
  from t have d: "\<forall>t \<in> set (rs_sv_split ''x--y----'' ''--'' False (Some cb_collect) []). t \<noteq> []"
    by (elim conjE)
  have c': "rs_sv_split ''x--y----'' ''--'' False (Some cb_collect) [] = [''x'', ''y'']"
    unfolding c a by simp
  from d c' have d': "set (rs_sv_split ''x--y----'' ''--'' False (Some cb_collect) []) = {''x'', ''y''}"
    by simp
  from a b c' d' ne show ?thesis by (intro conjI)
qed


section \<open>Sharing\<close>

text \<open>
  Sharing a heap string with an inline destination: \<open>rs__retain\<close> runs in the
  branch for a heap source and again after it, so the count of the block goes up by
  two while the number of strings that point to it goes up by one.
\<close>

lemma share_heap_rc:
  assumes "dst \<noteq> src" and "dst < length (objs w)" and "src < length (objs w)"
    and "rs_p (objs w ! src) = Heap a" and "rs_p (objs w ! dst) = Sso"
    and "blocks (mem w) a = Some b" and "hdr_rc b + 2 \<le> SIZE_MAX"
  shows "rc_of (mem (rs_string_share dst src w)) a = Some (hdr_rc b + 2) \<and>
         holders (rs_string_share dst src w) a = holders w a + 1"
proof -
  have h: "length (filter P (xs[i := y])) = length (filter P xs) + 1"
    if "i < length xs" "\<not> P (xs ! i)" "P y" for P :: "rs_string \<Rightarrow> bool" and xs i y
    using that by (induction xs arbitrary: i) (auto split: nat.splits)
  have "rc_of (mem (rs_string_share dst src w)) a = Some (hdr_rc b + 2)"
    using assms
    by (simp add: rs_string_share_def rs_string_free_def rs_string_is_heap_def rs__retain_def
        set_hdr_def rs__rc_inc_def rc_of_def Let_def)
  moreover have "objs (rs_string_share dst src w) = (objs w)[dst := objs w ! src]"
    using assms
    by (simp add: rs_string_share_def rs_string_free_def rs_string_is_heap_def Let_def)
  ultimately show ?thesis
    using assms h [of dst "objs w" "\<lambda>s. rs_p s = Heap a" "objs w ! src"]
    by (simp add: holders_def)
qed

text \<open>
  Claim C1 at a concrete input: a heap string that alone owns its block (count 1) is
  shared with a fresh inline string. Afterwards two strings point to the block and its
  count is 3, not 2; and after both strings have been released the block is still
  allocated, with count 1 and no string pointing to it.
\<close>

theorem share_heap_retains_twice:
  "rc_of (mem share_world) 0 = Some 1 \<and> holders share_world 0 = 1 \<and>
   rc_of (mem (rs_string_share 0 1 share_world)) 0 = Some 3 \<and>
   holders (rs_string_share 0 1 share_world) 0 = 2 \<and>
   (let w = rs_string_share 0 1 share_world;
        (d, h1) = rs_string_free (objs w ! 0) (mem w);
        (s, h2) = rs_string_free (objs w ! 1) h1
    in rc_of h2 0 = Some 1 \<and> holders \<lparr>objs = [d, s], mem = h2\<rparr> 0 = 0)"
  by (simp add: share_world_def rs_string_share_def rs_string_free_def rs_string_is_heap_def
      rs__retain_def rs__free_heap_def rs__sys_free_def set_hdr_def rs__rc_inc_def rs__rc_dec_def
      rc_of_def holders_def heap_str_def heap_one_def rs_string_init_def garbage_slot_def
      SIZE_MAX_def Let_def)

section \<open>Allocation failure\<close>

text \<open>
  The operations that check the allocator's result report \<open>-1\<close> and leave length
  and content alone.
\<close>

lemma failure_leaves_string_unchanged:
  assumes v: "rs_valid s h"
  shows "(rs__ensure_unique s h = (r, s', h') \<or> rs_string_reserve_ex s need h = (r, s', h') \<or>
          rs_string_assign s w h = (r, s', h') \<or> rs_string_append s w h = (r, s', h') \<or>
          rs_string_insert s pos w h = (r, s', h') \<or> rs_string_erase s pos n h = (r, s', h') \<or>
          rs_string_vprintf s (Some w) h = (r, s', h')) \<Longrightarrow>
         r < 0 \<Longrightarrow> r = - 1 \<and> rs_len s' = rs_len s \<and> content s' h' = content s h"
proof (elim disjE)
  assume "rs__ensure_unique s h = (r, s', h')" "r < 0"
  with ensure_unique_spec [OF v] show ?thesis by fastforce
next
  assume "rs_string_reserve_ex s need h = (r, s', h')" "r < 0"
  with reserve_ex_spec [OF v] show ?thesis by fastforce
next
  assume "rs_string_assign s w h = (r, s', h')" "r < 0"
  with assign_spec [OF v] show ?thesis by fastforce
next
  assume "rs_string_append s w h = (r, s', h')" "r < 0"
  with append_spec [OF v] show ?thesis by fastforce
next
  assume "rs_string_insert s pos w h = (r, s', h')" "r < 0"
  with insert_spec [OF v] show ?thesis by fastforce
next
  assume "rs_string_erase s pos n h = (r, s', h')" "r < 0"
  with erase_spec [OF v] show ?thesis by fastforce
next
  assume "rs_string_vprintf s (Some w) h = (r, s', h')" "r < 0"
  with vprintf_spec [OF v] show ?thesis by fastforce
qed

text \<open>
  \<open>rs_string_from_val\<close> does not check: for an argument longer than the inline
  buffer a failed \<open>malloc\<close> is dereferenced.
\<close>

lemma from_val_alloc_failure:
  assumes "RS_SSO_CAP < length (c_str bytes)" and "\<not> may_alloc h (ticks h)"
  shows "rs_string_from_val slot (Some bytes) h = Inl NullDeref"
  using assms by (auto simp: rs_string_from_val_def rs__sys_malloc_def Let_def)

text \<open>
  Claim C3 at a concrete input: constructing a string from 23 bytes, one more than
  the inline buffer holds, while the allocator fails. No string and no failure
  indicator is returned; the null pointer is written through.
\<close>

theorem from_val_unchecked_malloc:
  "rs_string_from_val garbage_slot (Some (replicate 23 (CHR ''a''))) heap_oom = Inl NullDeref"
  by (simp add: rs_string_from_val_def rs__sys_malloc_def heap_oom_def c_str_def NUL_def
      RS_SSO_CAP_def Let_def)

text \<open>
  \<open>rs_string_replace_all\<close> drops the results of \<open>rs_string_erase\<close> and
  \<open>rs_string_insert\<close>. On the shared heap string \<open>shared_text\<close>, while the
  allocator fails, \<open>rs__ensure_unique\<close> cannot clone the block, so both calls fail
  in every round and the string stays as it is.
\<close>

lemma oom_valid:
  "rs_valid (heap_str 0 shared_text) (oom_heap t) \<and> \<not> unique (heap_str 0 shared_text) (oom_heap t) \<and>
   \<not> never_fails (oom_heap t) \<and> content (heap_str 0 shared_text) (oom_heap t) = shared_text"
  by (auto simp: heap_str_def oom_heap_def heap_one_def rs_valid_def unique_def never_fails_def
      content_def rs_buf_def nth_append)

lemma oom_find:
  "i \<le> 1 \<Longrightarrow> rs_string_find (heap_str 0 shared_text) ''X'' i (oom_heap t) = Some 1"
proof -
  assume "i \<le> 1"
  then have "i = 0 \<or> i = 1" by auto
  then show ?thesis
    by (auto simp: rs_string_find_def heap_str_def oom_heap_def heap_one_def rs_buf_def
        shared_text_def memcmp_scan.simps)
qed

lemma oom_erase:
  "rs_string_erase (heap_str 0 shared_text) 1 (length ''X'') (oom_heap t) =
     (- 1, heap_str 0 shared_text, oom_heap (Suc t))"
  by (simp add: rs_string_erase_def rs__ensure_unique_def rs__sys_malloc_def heap_str_def
      oom_heap_def heap_one_def shared_text_def Let_def)

lemma oom_insert:
  "length rep \<le> 1 \<Longrightarrow>
   rs_string_insert (heap_str 0 shared_text) 1 rep (oom_heap t) =
     (- 1, heap_str 0 shared_text, oom_heap (Suc t))"
  by (simp add: rs_string_insert_def rs_string_reserve_ex_def rs_string_cap_def
      rs_string_is_heap_def rs__ensure_unique_def rs__sys_malloc_def rs__sys_realloc_def
      heap_str_def oom_heap_def heap_one_def shared_text_def Let_def)

lemma oom_loop_never_returns:
  "replace_all_loop (heap_str 0 shared_text) ''X'' [] 0 0 (oom_heap 0) = None"
proof (rule ccontr)
  assume "replace_all_loop (heap_str 0 shared_text) ''X'' [] 0 0 (oom_heap 0) \<noteq> None"
  then obtain y where
    run: "replace_all_loop (heap_str 0 shared_text) ''X'' [] 0 0 (oom_heap 0) = Some y"
    by auto
  have "(heap_str 0 shared_text = heap_str 0 shared_text \<and> ''X'' = ''X'' \<and>
         ([] :: char list) = [] \<and> (0 :: nat) \<le> 1 \<and> (\<exists>t. oom_heap 0 = oom_heap t)) \<longrightarrow> False"
  proof (rule replace_all_loop.raw_induct
      [where P = "\<lambda>s frm rep i c h y. (s = heap_str 0 shared_text \<and> frm = ''X'' \<and> rep = [] \<and>
         i \<le> 1 \<and> (\<exists>t. h = oom_heap t)) \<longrightarrow> False", OF _ run])
    fix loop s frm rep i c h y
    assume IH: "\<And>s frm rep i c h y. loop s frm rep i c h = Some y \<Longrightarrow>
        (s = heap_str 0 shared_text \<and> frm = ''X'' \<and> rep = [] \<and> i \<le> 1 \<and>
         (\<exists>t. h = oom_heap t)) \<longrightarrow> False"
      and body: "(case rs_string_find s frm i h of
                    None \<Rightarrow> Some (c, s, h)
                  | Some pos \<Rightarrow>
                      (case rs_string_erase s pos (length frm) h of
                         (r1, s1, h1) \<Rightarrow>
                           (case rs_string_insert s1 pos rep h1 of
                              (r2, s2, h2) \<Rightarrow> loop s2 frm rep (pos + length rep) (c + 1) h2))) =
                 Some y"
    show "(s = heap_str 0 shared_text \<and> frm = ''X'' \<and> rep = [] \<and> i \<le> 1 \<and>
           (\<exists>t. h = oom_heap t)) \<longrightarrow> False"
    proof
      assume J: "s = heap_str 0 shared_text \<and> frm = ''X'' \<and> rep = [] \<and> i \<le> 1 \<and>
                 (\<exists>t. h = oom_heap t)"
      then obtain t where h: "h = oom_heap t" by blast
      from J body h oom_find [of i t] oom_erase [of t] oom_insert [of "[]" "Suc t"]
      have "loop (heap_str 0 shared_text) ''X'' [] 1 (c + 1) (oom_heap (Suc (Suc t))) = Some y"
        by simp
      from IH [OF this] show False by blast
    qed
  qed
  then show False by blast
qed

text \<open>
  Claim C9 at a concrete input: \<open>replace_all\<close> of \<open>X\<close> by the empty sequence on the
  well-formed heap string \<open>shared_text\<close>, whose block is shared, while the allocator
  fails. \<open>find\<close> reports the match at 1; \<open>erase\<close> and \<open>insert\<close> fail and are
  ignored; the cursor becomes \<open>1 + 0\<close>; the next round finds the same match. The
  number of unscanned bytes does not go down and the call never returns.
\<close>

theorem replace_all_never_returns:
  "rs_valid (heap_str 0 shared_text) (oom_heap 0) \<and> ''X'' \<noteq> [] \<and>
   rs_string_find (heap_str 0 shared_text) ''X'' 1 (oom_heap 0) = Some 1 \<and>
   rs_string_replace_all (heap_str 0 shared_text) ''X'' [] (oom_heap 0) = None"
  using oom_valid [of 0] oom_find [of 1 0] oom_loop_never_returns
  by (simp add: rs_string_replace_all_def)

text \<open>
  With the replacement \<open>Y\<close> the same call returns, reports one replacement and has
  made none.
\<close>

lemma oom_replace_all_counts_nothing:
  "rs_string_replace_all (heap_str 0 shared_text) ''X'' ''Y'' (oom_heap 0) =
     Some (1, heap_str 0 shared_text, oom_heap 2)"
proof -
  have f2: "rs_string_find (heap_str 0 shared_text) ''X'' 2 (oom_heap t) = None" for t
    by (simp add: rs_string_find_def heap_str_def oom_heap_def heap_one_def rs_buf_def
        shared_text_def memcmp_scan.simps)
  have "replace_all_loop (heap_str 0 shared_text) ''X'' ''Y'' 0 0 (oom_heap 0) =
        replace_all_loop (heap_str 0 shared_text) ''X'' ''Y'' 2 1 (oom_heap 2)"
    using oom_find [of 0 0] oom_erase [of 0] oom_insert [of "''Y''" 1]
    by (subst replace_all_loop.simps) (simp add: numeral_2_eq_2)
  also have "\<dots> = Some (1, heap_str 0 shared_text, oom_heap 2)"
    by (subst replace_all_loop.simps) (simp add: f2)
  finally show ?thesis by (simp add: rs_string_replace_all_def)
qed

end
